theory Spec2Isabelle
  imports Main "HOL-Library.Sublist"
begin

section \<open>Character classes of the patterns\<close>

text \<open>
  The program reads the module file into a Python \<open>str\<close> and runs three regular
  expressions over it. The text is modelled as a \<open>string\<close>; its characters are the code
  points below 256. \<open>is_space\<close> is the class \<open>\s\<close> of a \<open>str\<close> pattern on these code
  points: tab, line feed, vertical tab, form feed, carriage return, the separators
  0x1C to 0x1F, the space, and the two Latin-1 spaces 0x85 and 0xA0.
\<close>

definition in_range :: "char \<Rightarrow> char \<Rightarrow> char \<Rightarrow> bool" where
  "in_range lo hi c = ((of_char lo :: nat) \<le> of_char c \<and> (of_char c :: nat) \<le> of_char hi)"

definition is_space :: "char \<Rightarrow> bool" where
  "is_space c = (in_range (CHR 0x09) (CHR 0x0D) c \<or> in_range (CHR 0x1C) (CHR 0x1F) c
     \<or> c = CHR '' '' \<or> c = CHR 0x85 \<or> c = CHR 0xA0)"

definition is_blank :: "char \<Rightarrow> bool" where
  \<comment> \<open>\<open>[ ]\<close>\<close>
  "is_blank c = (c = CHR '' '')"

definition is_letter :: "char \<Rightarrow> bool" where
  \<comment> \<open>\<open>a-zA-Z\<close>\<close>
  "is_letter c = (in_range (CHR ''a'') (CHR ''z'') c \<or> in_range (CHR ''A'') (CHR ''Z'') c)"

definition is_digit :: "char \<Rightarrow> bool" where
  \<comment> \<open>\<open>0-9\<close>\<close>
  "is_digit c = in_range (CHR ''0'') (CHR ''9'') c"

definition dim_char :: "char \<Rightarrow> bool" where
  \<comment> \<open>\<open>[`a-zA-Z0-9\_\-\+\:\*/ ]\<close>\<close>
  "dim_char c = (c = CHR 0x60 \<or> is_letter c \<or> is_digit c \<or> c = CHR ''_'' \<or> c = CHR ''-''
     \<or> c = CHR ''+'' \<or> c = CHR '':'' \<or> c = CHR ''*'' \<or> c = CHR ''/'' \<or> c = CHR '' '')"

definition signal_char :: "char \<Rightarrow> bool" where
  \<comment> \<open>\<open>[a-zA-Z\_0-9\$]\<close>\<close>
  "signal_char c = (is_letter c \<or> c = CHR ''_'' \<or> is_digit c \<or> c = CHR ''$'')"

definition module_char :: "char \<Rightarrow> bool" where
  \<comment> \<open>\<open>[a-zA-Z\_0-9]\<close>\<close>
  "module_char c = (is_letter c \<or> c = CHR ''_'' \<or> is_digit c)"

definition letter_or_underscore :: "char \<Rightarrow> bool" where
  \<comment> \<open>\<open>[a-zA-Z\_]\<close>\<close>
  "letter_or_underscore c = (is_letter c \<or> c = CHR ''_'')"

definition newline_or_space :: "char \<Rightarrow> bool" where
  \<comment> \<open>\<open>[\n\s]\<close>\<close>
  "newline_or_space c = (c = CHR 0x0A \<or> is_space c)"

section \<open>Regular expressions and the backtracking matcher\<close>

text \<open>
  The constructs the three patterns use. Repetition of a single character class is kept
  apart from the bounded repetition of a whole sub-pattern (\<open>{0,n}\<close>), so that the
  matcher is structurally recursive.
\<close>

datatype regex =
    Lit string                      \<comment> \<open>literal text\<close>
  | Cls "char \<Rightarrow> bool"               \<comment> \<open>one character of a class\<close>
  | Many "char \<Rightarrow> bool"              \<comment> \<open>class\<open>*\<close>, greedy\<close>
  | Many1 "char \<Rightarrow> bool"             \<comment> \<open>class\<open>+\<close>, greedy\<close>
  | Exactly nat "char \<Rightarrow> bool"       \<comment> \<open>class\<open>{n}\<close>\<close>
  | Opt regex                       \<comment> \<open>\<open>r?\<close>, greedy\<close>
  | Upto nat regex                  \<comment> \<open>\<open>r{0,n}\<close>, greedy\<close>
  | Alt regex regex                 \<comment> \<open>\<open>a|b\<close>\<close>
  | Seq regex regex                 \<comment> \<open>concatenation\<close>
  | Group nat regex                 \<comment> \<open>capturing group number \<open>i\<close>\<close>
  | NotBehind regex                 \<comment> \<open>negative look-behind \<open>(?<!r)\<close>, \<open>r\<close> of fixed width\<close>

text \<open>The width of a fixed-width pattern, as the look-behind needs it.\<close>

fun width :: "regex \<Rightarrow> nat" where
  "width (Lit s) = length s"
| "width (Cls P) = 1"
| "width (Exactly n P) = n"
| "width (Seq a b) = width a + width b"
| "width (Alt a b) = width a"
| "width (Group i r) = width r"
| "width _ = 0"

text \<open>
  A matcher state is a position in the text, held as the text before it (nearest
  character first) and the text after it, with the groups captured so far. \<open>run\<close>
  returns every way a pattern matches from a state, in the order in which a backtracking
  engine tries them: the first element is the match the engine reports.
\<close>

type_synonym groups = "nat \<rightharpoonup> string"
type_synonym mstate = "string \<times> string \<times> groups"

definition advance :: "nat \<Rightarrow> mstate \<Rightarrow> mstate" where
  \<comment> \<open>move \<open>n\<close> characters to the right\<close>
  "advance n st = (case st of (b, a, g) \<Rightarrow> (rev (take n a) @ b, drop n a, g))"

definition retreat :: "nat \<Rightarrow> mstate \<Rightarrow> mstate" where
  \<comment> \<open>move \<open>n\<close> characters to the left\<close>
  "retreat n st = (case st of (b, a, g) \<Rightarrow> (drop n b, rev (take n b) @ a, g))"

definition capture :: "nat \<Rightarrow> string \<Rightarrow> mstate \<Rightarrow> mstate" where
  \<comment> \<open>group \<open>i\<close> is the text between the position where it began (\<open>a\<close> was ahead) and here\<close>
  "capture i a st = (case st of (b', a', g') \<Rightarrow> (b', a', g'(i \<mapsto> take (length a - length a') a)))"

fun depth :: "regex \<Rightarrow> nat" where
  "depth (Opt r) = Suc (depth r)"
| "depth (Upto n r) = Suc (n + depth r)"
| "depth (Alt a b) = Suc (depth a + depth b)"
| "depth (Seq a b) = Suc (depth a + depth b)"
| "depth (Group i r) = Suc (depth r)"
| "depth (NotBehind r) = Suc (depth r)"
| "depth _ = 0"

function (sequential) run :: "regex \<Rightarrow> mstate \<Rightarrow> mstate list" where
  "run (Lit s) (b, a, g) =
     (if take (length s) a = s then [advance (length s) (b, a, g)] else [])"
| "run (Cls P) (b, a, g) =
     (case a of [] \<Rightarrow> [] | c # cs \<Rightarrow> if P c then [(c # b, cs, g)] else [])"
| "run (Many P) (b, a, g) =
     map (\<lambda>n. advance n (b, a, g)) (rev [0 ..< Suc (length (takeWhile P a))])"
| "run (Many1 P) (b, a, g) =
     map (\<lambda>n. advance n (b, a, g)) (rev [1 ..< Suc (length (takeWhile P a))])"
| "run (Exactly n P) (b, a, g) =
     (if n \<le> length a \<and> list_all P (take n a) then [advance n (b, a, g)] else [])"
| "run (Opt r) (b, a, g) = run r (b, a, g) @ [(b, a, g)]"
| "run (Upto 0 r) (b, a, g) = [(b, a, g)]"
| "run (Upto (Suc n) r) (b, a, g) =
     concat (map (run (Upto n r)) (run r (b, a, g))) @ [(b, a, g)]"
| "run (Alt r1 r2) (b, a, g) = run r1 (b, a, g) @ run r2 (b, a, g)"
| "run (Seq r1 r2) (b, a, g) = concat (map (run r2) (run r1 (b, a, g)))"
| "run (Group i r) (b, a, g) = map (capture i a) (run r (b, a, g))"
| "run (NotBehind r) (b, a, g) =
     (if width r \<le> length b \<and> run r (retreat (width r) (b, a, g)) \<noteq> [] then []
      else [(b, a, g)])"
  by pat_completeness auto
termination
  by (relation "measure (\<lambda>(r, st). depth r)") auto

text \<open>
  \<open>pattern.match\<close> at the position with \<open>b\<close> before it and \<open>a\<close> after it: the first way
  the pattern matches there.
\<close>

definition match_at :: "regex \<Rightarrow> string \<Rightarrow> string \<Rightarrow> mstate option" where
  "match_at rx b a = (case run rx (b, a, Map.empty) of [] \<Rightarrow> None | m # _ \<Rightarrow> Some m)"

text \<open>
  \<open>re.finditer\<close>: the matches from left to right, each search starting where the last
  match ended. The search is tried at every position up to the end of the text. After an
  empty match the search moves on by one character; the three patterns of the program
  never match the empty string.
\<close>

record rmatch =
  m_start :: nat
  m_end :: nat
  m_groups :: groups

function scan :: "regex \<Rightarrow> string \<Rightarrow> string \<Rightarrow> rmatch list" where
  "scan rx b a =
     (case match_at rx b a of
        None \<Rightarrow> (case a of [] \<Rightarrow> [] | c # cs \<Rightarrow> scan rx (c # b) cs)
      | Some (b', a', g) \<Rightarrow>
          \<lparr>m_start = length b, m_end = length b', m_groups = g\<rparr>
            # (if length a' < length a then scan rx b' a'
               else case a of [] \<Rightarrow> [] | c # cs \<Rightarrow> scan rx (c # b) cs))"
  by pat_completeness auto
termination
  by (relation "measure (\<lambda>(rx, b, a). length a)") auto

declare scan.simps [simp del]

definition finditer :: "regex \<Rightarrow> string \<Rightarrow> rmatch list" where
  "finditer rx text = scan rx [] text"

text \<open>A group that took no part in the match reads as the empty string in \<open>re.findall\<close>.\<close>

definition group_or_empty :: "rmatch \<Rightarrow> nat \<Rightarrow> string" where
  "group_or_empty m i = (case m_groups m i of None \<Rightarrow> [] | Some s \<Rightarrow> s)"

definition findall1 :: "regex \<Rightarrow> string \<Rightarrow> string list" where
  \<comment> \<open>\<open>re.findall\<close> for a pattern with one group: the list of its captures\<close>
  "findall1 rx text = map (\<lambda>m. group_or_empty m 1) (finditer rx text)"

definition findall2 :: "regex \<Rightarrow> string \<Rightarrow> (string \<times> string) list" where
  \<comment> \<open>\<open>re.findall\<close> for a pattern with two groups: the list of pairs of captures\<close>
  "findall2 rx text = map (\<lambda>m. (group_or_empty m 1, group_or_empty m 2)) (finditer rx text)"

section \<open>The patterns of the program\<close>

definition maxNumWhiteSpaces :: nat where
  "maxNumWhiteSpaces = 16"

definition lookbehinds :: "nat \<Rightarrow> regex list" where
  \<comment> \<open>\<open>(?<!input\s{i})(?<!output\s{i})\<close>\<close>
  "lookbehinds i =
     [NotBehind (Seq (Lit ''input'') (Exactly i is_space)),
      NotBehind (Seq (Lit ''output'') (Exactly i is_space))]"

definition dimension_group :: regex where
  \<comment> \<open>\<open>(\[[`a-zA-Z0-9\_\-\+\:\*/ ]+\](?:[ ]*)?)\<close>\<close>
  "dimension_group =
     Group 1 (Seq (Lit ''['') (Seq (Many1 dim_char) (Seq (Lit '']'') (Opt (Many is_blank)))))"

definition declaration_body :: "string \<Rightarrow> regex" where
  \<comment> \<open>\<open>wire\s*(...){0,2}\s+([a-zA-Z\_0-9\$]+)\s*;?\<close>, the keyword a parameter\<close>
  "declaration_body kw =
     Seq (Lit kw) (Seq (Many is_space) (Seq (Upto 2 dimension_group)
       (Seq (Many1 is_space) (Seq (Group 2 (Many1 signal_char))
         (Seq (Many is_space) (Opt (Lit '';'')))))))"

definition declaration_pattern :: "string \<Rightarrow> regex" where
  "declaration_pattern kw =
     foldr Seq (concat (map lookbehinds [0 ..< maxNumWhiteSpaces + 1])) (declaration_body kw)"

definition internalWiresPattern :: regex where
  "internalWiresPattern = declaration_pattern ''wire''"

definition internalRegsPattern :: regex where
  \<comment> \<open>the wire pattern with \<open>wire\<close> replaced by \<open>reg\<close>\<close>
  "internalRegsPattern = declaration_pattern ''reg''"

definition module_header :: regex where
  \<comment> \<open>\<open>module\s+(?:\$\[PREFIX\])?([a-zA-Z\_0-9]+)[\n\s]*#?[\n\s]*\(\<close>\<close>
  "module_header =
     Seq (Lit ''module'') (Seq (Many1 is_space) (Seq (Opt (Lit ''$[PREFIX]''))
       (Seq (Group 1 (Many1 module_char)) (Seq (Many newline_or_space)
         (Seq (Opt (Lit ''#'')) (Seq (Many newline_or_space) (Lit ''('')))))))"

definition moduleNamePattern :: regex where
  \<comment> \<open>\<open>(?<!(?: |/|[a-zA-Z\_]))\<close> and then the header\<close>
  "moduleNamePattern =
     Seq (NotBehind (Alt (Lit '' '') (Alt (Lit ''/'') (Cls letter_or_underscore))))
       module_header"

section \<open>Console messages\<close>

definition tab :: string where "tab = [CHR 0x09]"
definition nl :: string where "nl = [CHR 0x0A]"
definition apostrophe :: string where "apostrophe = [CHR 0x27]"
definition rule75 :: string where "rule75 = replicate 75 (CHR ''='')"
definition rule104 :: string where "rule104 = replicate 104 (CHR ''='')"

definition errorTag :: string where "errorTag = tab @ ''***Error: ''"
definition successTag :: string where "successTag = tab @ ''***Success: ''"
definition infoTag :: string where "infoTag = tab @ ''***Info: ''"

definition noArgsMsg :: string where
  "noArgsMsg = errorTag @ ''No input arguments were specified. Please use '' @ apostrophe
     @ ''--filename'' @ apostrophe @ '' followed'' @ nl @ tab
     @ ''by the name of the module to be inspected.''"

definition noSuchFileMsg :: "string \<Rightarrow> string" where
  "noSuchFileMsg f = errorTag @ ''The module file '' @ apostrophe @ f @ apostrophe
     @ '' could not be located - double-check the name or file path.''"

definition fileReadSuccess :: string where
  "fileReadSuccess = successTag @ ''The module file was read in successfully.''"

definition fileReadError :: string where
  "fileReadError = errorTag @ ''The module file could not be read in successfully.''"

definition moduleNameNotIdentified :: "string \<Rightarrow> string" where
  "moduleNameNotIdentified m = errorTag
     @ ''The module name could not be identified. Please ensure that you have used'' @ nl
     @ ''a standard or conventional structure. Setting the module name to '' @ m
     @ '' for now'' @ nl"

definition noInternalWiresIdentified :: string where
  "noInternalWiresIdentified = infoTag @ ''No internal wire declarations were found''"

definition noInternalRegsIdentified :: string where
  "noInternalRegsIdentified = infoTag @ ''No internal register declarations were found''"

text \<open>\<open>str(n)\<close> for a count.\<close>

fun show_nat :: "nat \<Rightarrow> string" where
  "show_nat n =
     (if n < 10 then [char_of (48 + n)] else show_nat (n div 10) @ [char_of (48 + n mod 10)])"

definition internalSignalsSummaryMsg :: "string \<Rightarrow> nat \<Rightarrow> nat \<Rightarrow> nat \<Rightarrow> string" where
  "internalSignalsSummaryMsg m w r t = nl @ nl @ rule75 @ nl
     @ tab @ tab @ m @ '' Internal Signals Information'' @ nl
     @ tab @ tab @ ''Total number of wires: '' @ show_nat w @ nl
     @ tab @ tab @ ''Total number of registers: '' @ show_nat r @ nl
     @ tab @ tab @ ''Total number of internal signals: '' @ show_nat t @ nl
     @ rule75"

definition internalWiresHeader :: "string \<Rightarrow> string" where
  "internalWiresHeader f = nl @ nl @ rule75 @ nl
     @ tab @ tab @ ''Internal Wires of '' @ f @ nl @ rule75"

definition internalRegsHeader :: "string \<Rightarrow> string" where
  "internalRegsHeader f = nl @ nl @ rule75 @ nl
     @ tab @ tab @ ''Internal Registers of '' @ f @ nl @ rule75"

definition goodbyeMsg :: "string \<Rightarrow> string \<Rightarrow> string" where
  "goodbyeMsg txt csv = nl @ rule104 @ nl
     @ tab @ ''Success! The list of internal signals is in '' @ txt @ ''.'' @ nl
     @ tab @ '' The list can also be found in CSV format in '' @ csv @ ''.'' @ nl
     @ rule104"

section \<open>The program\<close>

text \<open>
  The script runs once, top to bottom. Its result is modelled as an \<open>outcome\<close>: how the run
  ended, the lines it printed, and the files it created with their contents, in the order
  of creation. An uncaught exception ends the run where it is raised.
\<close>

datatype exception = NameError string | TypeError | OSError

datatype ending = Completed | Exited | Raised exception

record outcome =
  ending :: ending
  console :: "string list"
  files :: "(string \<times> string) list"

text \<open>
  A path of the file system either is no regular file (\<open>None\<close>), or names a file that
  cannot be opened, one whose bytes cannot be decoded when read, or one with a text.
\<close>

datatype file_state = Unopenable | Undecodable | Content string

type_synonym signal_decl = "string \<times> string"

subsection \<open>Module name\<close>

definition resolveModuleName :: "string \<Rightarrow> string \<times> string list" where
  \<comment> \<open>the module name and what is printed\<close>
  "resolveModuleName moduleContents =
     (let matches = findall1 moduleNamePattern moduleContents
      in if length matches \<noteq> 1
         then (''module'', [moduleNameNotIdentified ''module''])
         else (matches ! 0, []))"

subsection \<open>Wires and registers\<close>

text \<open>
  Each extraction binds its list and its count only when there is a match; \<open>None\<close> is the
  unbound variable. The first component is the flag \<open>internalWiresFound\<close>
  (\<open>internalRegsFound\<close>), the last what is printed.
\<close>

definition extractDeclarations ::
  "regex \<Rightarrow> string \<Rightarrow> string \<Rightarrow> bool \<times> signal_decl list option \<times> string list" where
  "extractDeclarations pattern nothingFound moduleContents =
     (let matches = findall2 pattern moduleContents
      in if length matches = 0
         then (False, None, [nothingFound])
         else (True, Some matches, []))"

definition extractWires :: "string \<Rightarrow> bool \<times> signal_decl list option \<times> string list" where
  "extractWires = extractDeclarations internalWiresPattern noInternalWiresIdentified"

definition extractRegs :: "string \<Rightarrow> bool \<times> signal_decl list option \<times> string list" where
  "extractRegs = extractDeclarations internalRegsPattern noInternalRegsIdentified"

subsection \<open>Names and counts\<close>

definition signalNames :: "signal_decl list \<Rightarrow> string list" where
  \<comment> \<open>the loop \<open>for i in range(0, n): names.append(decls[i][1])\<close>\<close>
  "signalNames decls = map (\<lambda>i. snd (decls ! i)) [0 ..< length decls]"

text \<open>
  \<open>list(set(names))\<close> lists every name once, in an order that the hashing of strings
  decides and that may differ from run to run. The order is a parameter of the model:
  \<open>list_of_set\<close> stands for \<open>\<lambda>names. list(set(names))\<close>.
\<close>

definition set_order :: "(string list \<Rightarrow> string list) \<Rightarrow> bool" where
  "set_order list_of_set = (\<forall>names. distinct (list_of_set names) \<and> set (list_of_set names) = set names)"

definition numUniqueNames :: "(string list \<Rightarrow> string list) \<Rightarrow> signal_decl list \<Rightarrow> nat" where
  "numUniqueNames list_of_set decls = length (list_of_set (signalNames decls))"

definition numUniqueSignalNames ::
  "(string list \<Rightarrow> string list) \<Rightarrow> signal_decl list \<Rightarrow> signal_decl list \<Rightarrow> nat" where
  "numUniqueSignalNames list_of_set internalWires internalRegs =
     (let internalRegNames = list_of_set (signalNames internalRegs);
          internalWireNames = list_of_set (signalNames internalWires);
          internalSignalNames = internalWireNames @ internalRegNames
      in length internalSignalNames)"

subsection \<open>The dictionary and the CSV file\<close>

text \<open>
  A Python \<open>dict\<close> keeps its keys in the order of their first insertion; assigning to a
  key that is present replaces the value in place.
\<close>

fun dict_set :: "(string \<times> string) list \<Rightarrow> string \<Rightarrow> string \<Rightarrow> (string \<times> string) list" where
  "dict_set [] k v = [(k, v)]"
| "dict_set ((k', v') # d) k v = (if k' = k then (k, v) # d else (k', v') # dict_set d k v)"

definition dict_get :: "(string \<times> string) list \<Rightarrow> string \<Rightarrow> string option" where
  "dict_get d k = map_of d k"

definition internalSignalsDict :: "signal_decl list \<Rightarrow> signal_decl list \<Rightarrow> (string \<times> string) list" where
  "internalSignalsDict internalWires internalRegs =
     (let internalSignals = internalWires @ internalRegs;
          numInternalSignals = length internalRegs + length internalWires
      in foldl (\<lambda>d i. dict_set d (snd (internalSignals ! i)) (fst (internalSignals ! i)))
           [] [0 ..< numInternalSignals])"

text \<open>
  \<open>csv.writer\<close> with the default dialect: fields joined by commas, a field holding a comma,
  a double quote or a line break is quoted (a double quote inside doubled), every row
  ends with carriage return and line feed.
\<close>

definition csv_special :: "char \<Rightarrow> bool" where
  "csv_special c = (c = CHR '','' \<or> c = CHR 0x22 \<or> c = CHR 0x0D \<or> c = CHR 0x0A)"

definition csv_field :: "string \<Rightarrow> string" where
  "csv_field f =
     (if list_ex csv_special f
      then [CHR 0x22] @ concat (map (\<lambda>c. if c = CHR 0x22 then [c, c] else [c]) f) @ [CHR 0x22]
      else f)"

fun join_fields :: "string list \<Rightarrow> string" where
  "join_fields [] = []"
| "join_fields [f] = f"
| "join_fields (f # fs) = f @ '','' @ join_fields fs"

definition writerow :: "string list \<Rightarrow> string" where
  "writerow row = join_fields (map csv_field row) @ [CHR 0x0D, CHR 0x0A]"

definition csvContents :: "(string \<times> string) list \<Rightarrow> string" where
  "csvContents d =
     writerow [''Field Name'', ''Field Dimension'']
       @ concat (map (\<lambda>(key, val). writerow [key, val]) d)"

subsection \<open>The text report\<close>

definition signalLines :: "signal_decl list \<Rightarrow> string" where
  "signalLines decls = concat (map (\<lambda>d. snd d @ ''   '' @ fst d @ nl) decls)"

definition internalWiresStr :: "bool \<Rightarrow> string \<Rightarrow> signal_decl list \<Rightarrow> string" where
  "internalWiresStr internalWiresFound moduleFileName internalWires =
     (if internalWiresFound
      then internalWiresHeader moduleFileName @ nl @ nl @ signalLines internalWires
      else [])"

definition internalRegsStr :: "bool \<Rightarrow> string \<Rightarrow> signal_decl list \<Rightarrow> string" where
  "internalRegsStr internalRegsFound moduleFileName internalRegs =
     (if internalRegsFound
      then internalRegsHeader moduleFileName @ nl @ nl @ signalLines internalRegs
      else [])"

subsection \<open>The run\<close>

text \<open>
  \<open>extraction\<close> is the script from the patterns on, for a file that was read. The sum
  \<open>numInternalRegs + numInternalWires\<close> reads both counts, the register count first; a
  count that was never bound raises \<open>NameError\<close> there, before any file is opened.
\<close>

definition extraction ::
  "(string list \<Rightarrow> string list) \<Rightarrow> string \<Rightarrow> string \<Rightarrow> string list \<Rightarrow> outcome" where
  "extraction list_of_set moduleFileName moduleContents printed =
     (let (moduleName, printed1) = resolveModuleName moduleContents;
          (internalWiresFound, wires, printed2) = extractWires moduleContents;
          (internalRegsFound, regs, printed3) = extractRegs moduleContents;
          printed' = printed @ printed1 @ printed2 @ printed3
      in case regs of
           None \<Rightarrow> \<lparr>ending = Raised (NameError ''numInternalRegs''), console = printed', files = []\<rparr>
         | Some internalRegs \<Rightarrow>
        (case wires of
           None \<Rightarrow> \<lparr>ending = Raised (NameError ''numInternalWires''), console = printed', files = []\<rparr>
         | Some internalWires \<Rightarrow>
             (let numUniqueRegNames = numUniqueNames list_of_set internalRegs;
                  numUniqueWireNames = numUniqueNames list_of_set internalWires;
                  numUnique = numUniqueSignalNames list_of_set internalWires internalRegs;
                  outputCsvFileName = moduleName @ ''_internal_signals.csv'';
                  csv = csvContents (internalSignalsDict internalWires internalRegs);
                  outputStr = internalWiresStr internalWiresFound moduleFileName internalWires
                                @ internalRegsStr internalRegsFound moduleFileName internalRegs;
                  outputFileName = moduleName @ ''_internal_signals.txt''
              in \<lparr>ending = Completed,
                  console = printed' @ [goodbyeMsg outputFileName outputCsvFileName,
                    internalSignalsSummaryMsg moduleName numUniqueWireNames numUniqueRegNames numUnique],
                  files = [(outputCsvFileName, csv), (outputFileName, outputStr)]\<rparr>)))"

text \<open>
  \<open>main\<close> is the whole script. \<open>argc\<close> is \<open>len(sys.argv)\<close> and \<open>filename\<close> is
  \<open>args.filename\<close> as the argument parser returns it (\<open>None\<close> when the switch was not
  given); \<open>fs\<close> is the file system. \<open>os.path.isfile(None)\<close> raises \<open>TypeError\<close>.
\<close>

definition main ::
  "(string list \<Rightarrow> string list) \<Rightarrow> nat \<Rightarrow> string option \<Rightarrow> (string \<rightharpoonup> file_state) \<Rightarrow> outcome" where
  "main list_of_set argc filename fs =
     (if argc = 1 then \<lparr>ending = Exited, console = [noArgsMsg], files = []\<rparr>
      else case filename of
        None \<Rightarrow> \<lparr>ending = Raised TypeError, console = [], files = []\<rparr>
      | Some moduleFileName \<Rightarrow>
         (case fs moduleFileName of
            None \<Rightarrow> \<lparr>ending = Exited, console = [noSuchFileMsg moduleFileName], files = []\<rparr>
          | Some Unopenable \<Rightarrow> \<lparr>ending = Raised OSError, console = [], files = []\<rparr>
          | Some Undecodable \<Rightarrow> \<lparr>ending = Exited, console = [fileReadError], files = []\<rparr>
          | Some (Content moduleContents) \<Rightarrow>
              extraction list_of_set moduleFileName moduleContents [fileReadSuccess]))"

section \<open>Helper predicates of the proofs\<close>

text \<open>A state \<open>st'\<close> lies at or to the right of \<open>st\<close> in the same text.\<close>

definition moved :: "mstate \<Rightarrow> mstate \<Rightarrow> bool" where
  "moved st st' = (\<exists>u. fst (snd st) = u @ fst (snd st') \<and> fst st' = rev u @ fst st)"

text \<open>
  The position with \<open>b\<close> before it (nearest character first) is preceded by \<open>token\<close> and
  then exactly \<open>i\<close> whitespace characters; and by \<open>input\<close> or \<open>output\<close> and 0 up to 16
  whitespace characters.
\<close>

definition preceded_by :: "string \<Rightarrow> nat \<Rightarrow> string \<Rightarrow> bool" where
  "preceded_by token i b =
     (i + length token \<le> length b \<and> list_all is_space (take i b)
        \<and> take (length token) (drop i b) = rev token)"

definition port_preceded :: "string \<Rightarrow> bool" where
  "port_preceded b =
     list_ex (\<lambda>i. preceded_by ''input'' i b \<or> preceded_by ''output'' i b)
       [0 ..< maxNumWhiteSpaces + 1]"

text \<open>
  The scan for declarations, named so that it can be given an equation that looks for
  the keyword first (\<open>declarations_from_code\<close>); concrete texts are evaluated with it.
\<close>

definition declarations_from :: "string \<Rightarrow> string \<Rightarrow> string \<Rightarrow> rmatch list" where
  "declarations_from kw b a = scan (declaration_pattern kw) b a"

fun contains :: "string \<Rightarrow> string \<Rightarrow> bool" where
  "contains pat [] = (pat = [])"
| "contains pat (c # cs) = (take (length pat) (c # cs) = pat \<or> contains pat cs)"

definition example_text :: string where
  "example_text = ''module foo ('' @ nl @ ''input wire clk;'' @ nl @ ''output reg [7:0] data;'' @ nl
     @ ''wire [3:0] internal_a;'' @ nl @ ''reg internal_b;'' @ nl @ ''reg internal_b;'' @ nl"

definition no_wires_text :: string where
  "no_wires_text = ''module m (input clk);'' @ nl @ ''reg q;'' @ nl @ ''endmodule'' @ nl"

definition module_headers_from :: "string \<Rightarrow> string \<Rightarrow> rmatch list" where
  "module_headers_from b a = scan moduleNamePattern b a"

definition crlf :: string where
  "crlf = [CHR 0x0D, CHR 0x0A]"

definition example_csv :: string where
  "example_csv = ''Field Name,Field Dimension'' @ crlf @ ''internal_a,[3:0]'' @ crlf
     @ ''internal_b,'' @ crlf"

definition example_report :: "string \<Rightarrow> string" where
  "example_report f = internalWiresHeader f @ nl @ nl @ ''internal_a   [3:0]'' @ nl
     @ internalRegsHeader f @ nl @ nl @ ''internal_b   '' @ nl @ ''internal_b   '' @ nl"

definition site_match :: "regex \<Rightarrow> string \<Rightarrow> string \<Rightarrow> rmatch list" where
  "site_match rx b a =
     (case match_at rx b a of
        None \<Rightarrow> []
      | Some (b', a', g) \<Rightarrow> [\<lparr>m_start = length b, m_end = length b', m_groups = g\<rparr>])"

fun every_match :: "regex \<Rightarrow> string \<Rightarrow> string \<Rightarrow> rmatch list" where
  "every_match rx b [] = site_match rx b []"
| "every_match rx b (c # cs) = site_match rx b (c # cs) @ every_match rx (c # b) cs"

text \<open>
  The look-behind of the module pattern, read on the text before the keyword: the
  character just before it is a space, a slash, a letter or an underscore.
\<close>

definition header_excluded :: "string \<Rightarrow> bool" where
  "header_excluded b =
     (case b of [] \<Rightarrow> False
      | c # _ \<Rightarrow> c = CHR '' '' \<or> c = CHR ''/'' \<or> letter_or_underscore c)"

text \<open>
  A header with the name \<open>name\<close> begins at the position with \<open>b\<close> before it and \<open>a\<close> after
  it: the keyword \<open>module\<close>, not excluded by the character before it, whitespace, the
  placeholder \<open>$[PREFIX]\<close> or nothing, the name, and then whitespace, at most one \<open>#\<close>,
  whitespace and an opening parenthesis.
\<close>

definition header_at :: "string \<Rightarrow> string \<Rightarrow> string \<Rightarrow> bool" where
  "header_at b a name =
     (\<not> header_excluded b \<and>
      (\<exists>ws pfx ws2 hash ws3 rest.
         a = ''module'' @ ws @ pfx @ name @ ws2 @ hash @ ws3 @ ''('' @ rest
       \<and> ws \<noteq> [] \<and> list_all is_space ws \<and> (pfx = [] \<or> pfx = ''$[PREFIX]'')
       \<and> name \<noteq> [] \<and> list_all module_char name
       \<and> list_all newline_or_space ws2 \<and> (hash = [] \<or> hash = ''#'')
       \<and> list_all newline_or_space ws3))"

text \<open>
  The pattern as the specification words it: the keyword is not immediately preceded by
  a letter, an underscore or a slash.
\<close>

definition claimedModuleNamePattern :: regex where
  "claimedModuleNamePattern =
     Seq (NotBehind (Alt (Lit ''/'') (Cls letter_or_underscore))) module_header"

text \<open>
  The headers of a text: the positions where a header begins, each with the name found
  there.
\<close>

definition headers :: "string \<Rightarrow> (nat \<times> string) set" where
  "headers t = {(i, name). i \<le> length t \<and> header_at (rev (take i t)) (drop i t) name}"

text \<open>
  The headers as the specification words them: the same shape, the keyword not immediately
  preceded by a letter, an underscore or a slash.
\<close>

definition claimed_excluded :: "string \<Rightarrow> bool" where
  "claimed_excluded b =
     (case b of [] \<Rightarrow> False | c # _ \<Rightarrow> c = CHR ''/'' \<or> letter_or_underscore c)"

definition claimed_header_at :: "string \<Rightarrow> string \<Rightarrow> string \<Rightarrow> bool" where
  "claimed_header_at b a name =
     (\<not> claimed_excluded b \<and>
      (\<exists>ws pfx ws2 hash ws3 rest.
         a = ''module'' @ ws @ pfx @ name @ ws2 @ hash @ ws3 @ ''('' @ rest
       \<and> ws \<noteq> [] \<and> list_all is_space ws \<and> (pfx = [] \<or> pfx = ''$[PREFIX]'')
       \<and> name \<noteq> [] \<and> list_all module_char name
       \<and> list_all newline_or_space ws2 \<and> (hash = [] \<or> hash = ''#'')
       \<and> list_all newline_or_space ws3))"

text \<open>
  One bracketed dimension as the pattern reads it: an opening bracket, one or more of the
  characters allowed between the brackets, a closing bracket, and then any number of
  space characters.
\<close>

definition bracketed :: "string \<Rightarrow> bool" where
  "bracketed d =
     (\<exists>body sp. d = ''['' @ body @ '']'' @ sp \<and> body \<noteq> [] \<and> list_all dim_char body
        \<and> list_all is_blank sp)"

text \<open>
  The dimension as the specification words it: the bracketed expressions of the
  declaration, from each opening bracket to the next closing one, put together.
\<close>

fun bracket_tokens :: "string option \<Rightarrow> string \<Rightarrow> string list" where
  "bracket_tokens tok [] = []"
| "bracket_tokens None (c # cs) =
     (if c = CHR ''['' then bracket_tokens (Some [c]) cs else bracket_tokens None cs)"
| "bracket_tokens (Some tok) (c # cs) =
     (if c = CHR '']'' then (tok @ [c]) # bracket_tokens None cs
      else bracket_tokens (Some (tok @ [c])) cs)"

definition claimed_dimension :: "string \<Rightarrow> string" where
  "claimed_dimension w = concat (bracket_tokens None w)"

section \<open>Properties of the matcher\<close>

lemma moved_refl: "moved st st"
  by (simp add: moved_def)

lemma moved_trans: "moved s1 s2 \<Longrightarrow> moved s2 s3 \<Longrightarrow> moved s1 s3"
  by (auto simp: moved_def)

lemma moved_advance: "n \<le> length a \<Longrightarrow> moved (b, a, g) (advance n (b, a, g))"
  unfolding moved_def advance_def
  by (rule exI [of _ "take n a"]) simp

lemma moved_capture: "moved st st' \<Longrightarrow> moved st (capture i a st')"
  by (cases st') (simp add: moved_def capture_def)

lemma take_eq_length: "take (length s) a = s \<Longrightarrow> length s \<le> length a"
  by (drule arg_cong [where f = length]) simp

lemma in_run_Many:
  "st' \<in> set (run (Many P) (b, a, g)) \<longleftrightarrow> (\<exists>n\<le>length (takeWhile P a). st' = advance n (b, a, g))"
proof -
  have "set (run (Many P) (b, a, g)) = (\<lambda>n. advance n (b, a, g)) ` {0 .. length (takeWhile P a)}"
    by (simp add: atLeastLessThanSuc_atLeastAtMost del: upt_Suc)
  then show ?thesis by auto
qed

lemma in_run_Many1:
  "st' \<in> set (run (Many1 P) (b, a, g)) \<longleftrightarrow>
     (\<exists>n. 1 \<le> n \<and> n \<le> length (takeWhile P a) \<and> st' = advance n (b, a, g))"
proof -
  have "set (run (Many1 P) (b, a, g)) = (\<lambda>n. advance n (b, a, g)) ` {1 .. length (takeWhile P a)}"
    by (simp add: atLeastLessThanSuc_atLeastAtMost del: upt_Suc)
  then show ?thesis by auto
qed

lemma run_moved: "st' \<in> set (run r st) \<Longrightarrow> moved st st'"
proof (induction r st arbitrary: st' rule: run.induct)
  case (1 s b a g)
  then have "take (length s) a = s" and st': "st' = advance (length s) (b, a, g)"
    by (auto split: if_splits)
  then have "length s \<le> length a"
    by (simp add: take_eq_length)
  with st' show ?case by (simp add: moved_advance)
next
  case (2 P b a g)
  then show ?case
    by (auto simp: moved_def split: list.splits if_splits)
next
  case (3 P b a g)
  then obtain n where "n \<le> length (takeWhile P a)" "st' = advance n (b, a, g)"
    by (auto simp only: in_run_Many in_run_Many1)
  moreover have "length (takeWhile P a) \<le> length a"
    by (rule length_takeWhile_le)
  ultimately show ?case by (simp add: moved_advance)
next
  case (4 P b a g)
  then obtain n where "n \<le> length (takeWhile P a)" "st' = advance n (b, a, g)"
    by (auto simp only: in_run_Many in_run_Many1)
  moreover have "length (takeWhile P a) \<le> length a"
    by (rule length_takeWhile_le)
  ultimately show ?case by (simp add: moved_advance)
next
  case (5 n P b a g)
  then show ?case by (auto simp: moved_advance split: if_splits)
next
  case (6 r b a g)
  then show ?case by (cases st') (auto simp: moved_refl)
next
  case (7 r b a g)
  then show ?case by (simp add: moved_refl)
next
  case (8 n r b a g)
  from "8.prems" consider "st' = (b, a, g)"
    | m where "m \<in> set (run r (b, a, g))" "st' \<in> set (run (Upto n r) m)"
    by auto
  then show ?case
  proof cases
    case 1
    then show ?thesis by (simp add: moved_refl)
  next
    case 2
    then show ?thesis
      using "8.IH" moved_trans by blast
  qed
next
  case (9 r1 r2 b a g)
  then show ?case by (cases st') auto
next
  case (10 r1 r2 b a g)
  from "10.prems" obtain m where "m \<in> set (run r1 (b, a, g))" "st' \<in> set (run r2 m)"
    by auto
  then show ?case
    using "10.IH" moved_trans by blast
next
  case (11 i r b a g)
  from "11.prems" obtain m where "m \<in> set (run r (b, a, g))" "st' = capture i a m"
    by auto
  then show ?case
    using "11.IH" moved_capture by blast
next
  case (12 r b a g)
  then show ?case by (auto simp: moved_refl split: if_splits)
qed

lemma run_Seq: "run (Seq r1 r2) (b, a, g) = concat (map (run r2) (run r1 (b, a, g)))"
  by simp

lemma run_lookbehind:
  "run (NotBehind (Seq (Lit token) (Exactly i is_space))) (b, a, g) =
     (if preceded_by token i b then [] else [(b, a, g)])"
proof (cases "length token + i \<le> length b")
  case False
  then show ?thesis by (simp add: preceded_by_def)
next
  case True
  define w where "w = length token + i"
  define found where "found = rev (take (length token) (drop i b))"
  define gap where "gap = rev (take i b)"
  have w: "w \<le> length b" using True by (simp add: w_def)
  have "take w b = take i b @ take (length token) (drop i b)"
    by (simp add: w_def take_add add.commute)
  then have split: "rev (take w b) = found @ gap"
    by (simp add: found_def gap_def)
  have len: "length found = length token"
    using True by (simp add: found_def)
  have leni: "length gap = i"
    using True by (simp add: gap_def)
  have r: "retreat w (b, a, g) = (drop w b, found @ gap @ a, g)"
    by (simp add: retreat_def split)
  have lit: "run (Lit token) (drop w b, found @ gap @ a, g) =
      (if found = token then [(rev found @ drop w b, gap @ a, g)] else [])"
    using len by (simp add: advance_def)
  have ex: "run (Exactly i is_space) (bb, gap @ a, g) =
      (if list_all is_space gap then [advance i (bb, gap @ a, g)] else [])" for bb
    using leni by simp
  have "run (Seq (Lit token) (Exactly i is_space)) (retreat w (b, a, g)) \<noteq> [] \<longleftrightarrow>
          found = token \<and> list_all is_space gap"
    unfolding r run_Seq lit by (simp add: ex del: run.simps)
  moreover have "found = token \<longleftrightarrow> take (length token) (drop i b) = rev token"
    unfolding found_def by (metis rev_rev_ident)
  moreover have "list_all is_space gap \<longleftrightarrow> list_all is_space (take i b)"
    by (simp add: gap_def list_all_iff)
  moreover have "run (NotBehind (Seq (Lit token) (Exactly i is_space))) (b, a, g) =
      (if run (Seq (Lit token) (Exactly i is_space)) (retreat w (b, a, g)) \<noteq> [] then []
       else [(b, a, g)])"
    using w by (simp add: w_def del: run.simps(1,5,10))
  ultimately show ?thesis
    using True by (simp add: preceded_by_def add.commute del: run.simps)
qed

lemma run_Seq_lookbehind:
  "run (Seq (NotBehind (Seq (Lit token) (Exactly i is_space))) r) (b, a, g) =
     (if preceded_by token i b then [] else run r (b, a, g))"
proof -
  have "run (Seq (NotBehind (Seq (Lit token) (Exactly i is_space))) r) (b, a, g) =
      concat (map (run r) (run (NotBehind (Seq (Lit token) (Exactly i is_space))) (b, a, g)))"
    by (rule run.simps)
  also have "\<dots> = (if preceded_by token i b then [] else run r (b, a, g))"
    by (simp add: run_lookbehind del: run.simps)
  finally show ?thesis .
qed

lemma run_lookbehinds:
  "run (foldr Seq (concat (map lookbehinds ns)) body) (b, a, g) =
     (if list_ex (\<lambda>i. preceded_by ''input'' i b \<or> preceded_by ''output'' i b) ns then []
      else run body (b, a, g))"
  by (induction ns) (simp_all add: lookbehinds_def run_Seq_lookbehind del: run.simps)

lemma run_declaration_pattern:
  "run (declaration_pattern kw) (b, a, g) =
     (if port_preceded b then [] else run (declaration_body kw) (b, a, g))"
  by (simp only: declaration_pattern_def port_preceded_def run_lookbehinds)

lemma run_declaration_body_keyword:
  "take (length kw) a \<noteq> kw \<Longrightarrow> run (declaration_body kw) (b, a, g) = []"
  by (simp add: declaration_body_def)

lemma match_at_declaration_pattern:
  "match_at (declaration_pattern kw) b a =
     (if take (length kw) a = kw \<and> \<not> port_preceded b then match_at (declaration_body kw) b a
      else None)"
  by (simp add: match_at_def run_declaration_pattern run_declaration_body_keyword)

lemma declarations_from_code [code]:
  "declarations_from kw b a =
     (case (if take (length kw) a = kw \<and> \<not> port_preceded b
            then match_at (declaration_body kw) b a else None) of
        None \<Rightarrow> (case a of [] \<Rightarrow> [] | c # cs \<Rightarrow> declarations_from kw (c # b) cs)
      | Some (b', a', g) \<Rightarrow>
          \<lparr>m_start = length b, m_end = length b', m_groups = g\<rparr>
            # (if length a' < length a then declarations_from kw b' a'
               else case a of [] \<Rightarrow> [] | c # cs \<Rightarrow> declarations_from kw (c # b) cs))"
  unfolding declarations_from_def
  by (subst scan.simps) (simp only: match_at_declaration_pattern)

lemma findall2_wires: "findall2 internalWiresPattern t =
    map (\<lambda>m. (group_or_empty m 1, group_or_empty m 2)) (declarations_from ''wire'' [] t)"
  by (simp add: findall2_def finditer_def internalWiresPattern_def declarations_from_def)

lemma findall2_regs: "findall2 internalRegsPattern t =
    map (\<lambda>m. (group_or_empty m 1, group_or_empty m 2)) (declarations_from ''reg'' [] t)"
  by (simp add: findall2_def finditer_def internalRegsPattern_def declarations_from_def)

lemma run_NotBehind_Lit:
  "take (length s) a \<noteq> s \<Longrightarrow> run (Seq (NotBehind x) (Seq (Lit s) r)) (b, a, g) = []"
  by simp

lemma run_moduleNamePattern_keyword:
  "take (length ''module'') a \<noteq> ''module'' \<Longrightarrow> run moduleNamePattern (b, a, g) = []"
  unfolding moduleNamePattern_def module_header_def by (rule run_NotBehind_Lit)

lemma match_at_moduleNamePattern:
  "match_at moduleNamePattern b a =
     (if take (length ''module'') a = ''module'' then match_at moduleNamePattern b a else None)"
  by (simp add: match_at_def run_moduleNamePattern_keyword)

lemma module_headers_from_code [code]:
  "module_headers_from b a =
     (case (if take (length ''module'') a = ''module'' then match_at moduleNamePattern b a else None) of
        None \<Rightarrow> (case a of [] \<Rightarrow> [] | c # cs \<Rightarrow> module_headers_from (c # b) cs)
      | Some (b', a', g) \<Rightarrow>
          \<lparr>m_start = length b, m_end = length b', m_groups = g\<rparr>
            # (if length a' < length a then module_headers_from b' a'
               else case a of [] \<Rightarrow> [] | c # cs \<Rightarrow> module_headers_from (c # b) cs))"
  unfolding module_headers_from_def
  by (subst scan.simps) (simp only: match_at_moduleNamePattern [symmetric])

lemma findall1_module:
  "findall1 moduleNamePattern t = map (\<lambda>m. group_or_empty m 1) (module_headers_from [] t)"
  by (simp add: findall1_def finditer_def module_headers_from_def)

section \<open>The run: counts, dictionary and files\<close>

lemma signalNames_eq: "signalNames decls = map snd decls"
  unfolding signalNames_def by (rule nth_equalityI) simp_all

lemma numUniqueNames_card:
  "set_order list_of_set \<Longrightarrow> numUniqueNames list_of_set decls = card (snd ` set decls)"
  unfolding numUniqueNames_def set_order_def signalNames_eq
  by (metis distinct_card set_map)

text \<open>
  Claim C9. A run with no input path (no argument at all, or no \<open>--filename\<close> among the
  arguments), and a run whose path names no existing file, ends before the extraction and
  creates no file: neither the CSV file nor the text report, not even in part.
\<close>

theorem no_output_without_input_file:
  "argc = 1 \<or> filename = None \<or> (\<exists>f. filename = Some f \<and> fs f = None) \<Longrightarrow>
     files (main list_of_set argc filename fs) = []
       \<and> ending (main list_of_set argc filename fs) \<noteq> Completed"
  by (auto simp: main_def split: option.splits)

theorem no_output_without_input_file_witness:
  "files (main remdups 1 None Map.empty) = []
     \<and> ending (main remdups 1 None Map.empty) \<noteq> Completed
     \<and> files (main remdups 2 None Map.empty) = []
     \<and> ending (main remdups 2 None Map.empty) \<noteq> Completed
     \<and> files (main remdups 3 (Some ''missing.v'') Map.empty) = []
     \<and> ending (main remdups 3 (Some ''missing.v'') Map.empty) \<noteq> Completed"
  using no_output_without_input_file [of 1 None Map.empty remdups]
    no_output_without_input_file [of 2 None Map.empty remdups]
    no_output_without_input_file [of 3 "Some ''missing.v''" Map.empty remdups]
  by simp

text \<open>
  Claim C6. The reported total of unique signal names is the number of unique wire names
  plus the number of unique register names: the two lists of unique names are joined with
  no pass over both kinds, so a name that is both a wire and a register counts twice (the
  total exceeds the size of the union by the size of the intersection).
\<close>

theorem unique_total_is_sum_of_kinds:
  assumes "set_order list_of_set"
  shows "numUniqueSignalNames list_of_set internalWires internalRegs =
           numUniqueNames list_of_set internalWires + numUniqueNames list_of_set internalRegs
         \<and> numUniqueSignalNames list_of_set internalWires internalRegs =
           card (snd ` set internalWires) + card (snd ` set internalRegs)
         \<and> numUniqueSignalNames list_of_set internalWires internalRegs =
           card (snd ` set internalWires \<union> snd ` set internalRegs)
             + card (snd ` set internalWires \<inter> snd ` set internalRegs)"
proof -
  have sum: "numUniqueSignalNames list_of_set internalWires internalRegs =
      numUniqueNames list_of_set internalWires + numUniqueNames list_of_set internalRegs"
    by (simp add: numUniqueSignalNames_def numUniqueNames_def)
  moreover have "card (snd ` set internalWires) + card (snd ` set internalRegs) =
      card (snd ` set internalWires \<union> snd ` set internalRegs)
        + card (snd ` set internalWires \<inter> snd ` set internalRegs)"
    by (rule card_Un_Int) simp_all
  ultimately show ?thesis
    using assms by (simp add: numUniqueNames_card)
qed

lemma set_order_remdups: "set_order remdups"
  by (simp add: set_order_def)

theorem unique_total_is_sum_of_kinds_witness:
  "set_order remdups
     \<and> numUniqueSignalNames remdups [([], ''a'')] [(''[3:0]'', ''a''), ([], ''b'')] = 3
     \<and> card (snd ` set [([], ''a'')] \<union> snd ` set [(''[3:0]'', ''a''), ([], ''b'')]) = 2"
  using unique_total_is_sum_of_kinds [OF set_order_remdups, of "[([], ''a'')]" "[(''[3:0]'', ''a''), ([], ''b'')]"]
  by (simp add: set_order_remdups)

lemma map_of_dict_set: "map_of (dict_set d k v) = (map_of d)(k \<mapsto> v)"
  by (induction d k v rule: dict_set.induct) auto

lemma internalSignalsDict_foldl:
  "internalSignalsDict internalWires internalRegs =
     foldl (\<lambda>d s. dict_set d (snd s) (fst s)) [] (internalWires @ internalRegs)"
proof -
  define xs where "xs = internalWires @ internalRegs"
  have "foldl (\<lambda>d i. dict_set d (snd (xs ! i)) (fst (xs ! i))) [] [0 ..< length xs] =
        foldl (\<lambda>d s. dict_set d (snd s) (fst s)) [] (map (\<lambda>i. xs ! i) [0 ..< length xs])"
    by (simp add: foldl_map)
  moreover have "length internalRegs + length internalWires = length xs"
    by (simp add: xs_def)
  ultimately show ?thesis
    unfolding internalSignalsDict_def Let_def xs_def [symmetric] by (simp add: map_nth)
qed

lemma map_of_foldl_dict_set:
  "map_of (foldl (\<lambda>d s. dict_set d (snd s) (fst s)) d xs) n =
     (case filter (\<lambda>s. snd s = n) xs of [] \<Rightarrow> map_of d n | ds \<Rightarrow> Some (fst (last ds)))"
proof (induction xs arbitrary: d)
  case Nil
  then show ?case by simp
next
  case (Cons x xs)
  show ?case
    by (cases "filter (\<lambda>s. snd s = n) xs") (auto simp: Cons.IH map_of_dict_set)
qed

text \<open>
  Claim C5. The dictionary from names to dimensions is built by going through the wires
  and then the registers in their order, duplicates included, assigning
  \<open>mapping[name] = dimension\<close> at each step; a name that occurs more than once ends with the
  dimension of its last occurrence.
\<close>

theorem dict_last_write_wins:
  "internalSignalsDict internalWires internalRegs =
     foldl (\<lambda>d s. dict_set d (snd s) (fst s)) [] (internalWires @ internalRegs)
   \<and> dict_get (internalSignalsDict internalWires internalRegs) n =
     (case filter (\<lambda>s. snd s = n) (internalWires @ internalRegs) of
        [] \<Rightarrow> None
      | ds \<Rightarrow> Some (fst (last ds)))"
proof -
  have "dict_get (internalSignalsDict internalWires internalRegs) n =
      map_of (foldl (\<lambda>d s. dict_set d (snd s) (fst s)) [] (internalWires @ internalRegs)) n"
    by (simp only: dict_get_def internalSignalsDict_foldl)
  also have "\<dots> = (case filter (\<lambda>s. snd s = n) (internalWires @ internalRegs) of
        [] \<Rightarrow> None
      | ds \<Rightarrow> Some (fst (last ds)))"
    by (simp only: map_of_foldl_dict_set map_of.simps)
  finally show ?thesis
    using internalSignalsDict_foldl [of internalWires internalRegs] by blast
qed

lemma files_extraction:
  "files (extraction f1 p c pr) = files (extraction f2 p c pr)
     \<and> ending (extraction f1 p c pr) = ending (extraction f2 p c pr)"
  by (simp add: extraction_def Let_def split: prod.splits option.splits)

text \<open>
  Claim C8. The files written and the way the run ends are the same whatever order the
  sets of names are listed in: two runs on the same input, with possibly different
  iteration orders of the deduplicating sets, write the same CSV file and the same text
  report.
\<close>

theorem output_files_independent_of_set_order:
  "files (main list_of_set1 argc filename fs) = files (main list_of_set2 argc filename fs)
     \<and> ending (main list_of_set1 argc filename fs) = ending (main list_of_set2 argc filename fs)"
  using files_extraction
  by (simp add: main_def split: option.splits file_state.splits)

text \<open>
  Claim C10. The keyword needs no word boundary on its left: in \<open>tripwire sig;\<close> the
  wire pattern finds the declaration of \<open>sig\<close> with an empty dimension, although the text
  holds no \<open>wire\<close> keyword of its own; likewise the register pattern in \<open>unreg sig;\<close>.
\<close>

theorem keyword_inside_identifier_matches:
  "findall2 internalWiresPattern ''tripwire sig;'' = [([], ''sig'')]
     \<and> findall2 internalRegsPattern ''unreg sig;'' = [([], ''sig'')]"
  unfolding findall2_wires findall2_regs by code_simp

lemma extraction_unbound_count:
  assumes "findall2 internalWiresPattern c = [] \<or> findall2 internalRegsPattern c = []"
  shows "files (extraction los p c pr) = []
      \<and> (\<exists>v. ending (extraction los p c pr) = Raised (NameError v))"
  using assms
  by (auto simp: extraction_def extractWires_def extractRegs_def extractDeclarations_def Let_def
      split: prod.splits option.splits)

text \<open>
  Claim C1. A module with a register and no internal wire: the claim asks for a run that
  goes on with an empty wire list and writes both files. The script instead ends with
  \<open>NameError\<close> at \<open>numInternalSignals = numInternalRegs + numInternalWires\<close>, the count of
  wires never having been bound, and writes no file.
\<close>

theorem run_without_wires_raises:
  "findall2 internalWiresPattern no_wires_text = []
     \<and> findall2 internalRegsPattern no_wires_text = [([], ''q'')]
     \<and> ending (main remdups 3 (Some ''m.v'') [''m.v'' \<mapsto> Content no_wires_text])
         = Raised (NameError ''numInternalWires'')
     \<and> files (main remdups 3 (Some ''m.v'') [''m.v'' \<mapsto> Content no_wires_text]) = []"
proof -
  have w: "findall2 internalWiresPattern no_wires_text = []"
    unfolding findall2_wires by code_simp
  have r: "findall2 internalRegsPattern no_wires_text = [([], ''q'')]"
    unfolding findall2_regs by code_simp
  show ?thesis
    by (simp add: w r main_def extraction_def extractWires_def extractRegs_def
        extractDeclarations_def Let_def split: prod.splits)
qed

lemma example_module: "findall1 moduleNamePattern example_text = [''foo'']"
  unfolding findall1_module by code_simp

lemma example_wires: "findall2 internalWiresPattern example_text = [(''[3:0]'', ''internal_a'')]"
  unfolding findall2_wires by code_simp

lemma example_regs:
  "findall2 internalRegsPattern example_text = [([], ''internal_b''), ([], ''internal_b'')]"
  unfolding findall2_regs by code_simp

lemma example_dict_csv:
  "csvContents (internalSignalsDict [(''[3:0]'', ''internal_a'')]
      [([], ''internal_b''), ([], ''internal_b'')]) = example_csv"
  by code_simp

lemma example_report_str:
  "internalWiresStr True f [(''[3:0]'', ''internal_a'')]
     @ internalRegsStr True f [([], ''internal_b''), ([], ''internal_b'')] = example_report f"
  by (simp add: internalWiresStr_def internalRegsStr_def signalLines_def example_report_def)

lemma example_clean:
  "list_all (\<lambda>s. \<not> contains ''clk'' s \<and> \<not> contains ''data'' s)
     [example_csv, example_report ''foo.v'', fileReadSuccess,
      goodbyeMsg ''foo_internal_signals.txt'' ''foo_internal_signals.csv'',
      internalSignalsSummaryMsg ''foo'' 1 1 2]"
  by code_simp

text \<open>
  Claim C7. The example of the specification: a header \<open>module foo (\<close> and the lines
  \<open>input wire clk;\<close>, \<open>output reg [7:0] data;\<close>, \<open>wire [3:0] internal_a;\<close>, \<open>reg internal_b;\<close>,
  \<open>reg internal_b;\<close>. The module name is \<open>foo\<close>, the wires are \<open>[("[3:0]", "internal_a")]\<close>,
  the registers are \<open>("", "internal_b")\<close> twice; there is one unique wire, one unique
  register, and the total is two; the CSV file has the header row and the two rows
  \<open>internal_a,[3:0]\<close> and \<open>internal_b,\<close>; and neither \<open>clk\<close> nor \<open>data\<close> occurs in a file written
  or a line printed.
\<close>

theorem end_to_end_example:
  assumes "set_order list_of_set"
  shows "resolveModuleName example_text = (''foo'', [])
     \<and> findall2 internalWiresPattern example_text = [(''[3:0]'', ''internal_a'')]
     \<and> findall2 internalRegsPattern example_text = [([], ''internal_b''), ([], ''internal_b'')]
     \<and> numUniqueNames list_of_set (findall2 internalWiresPattern example_text) = 1
     \<and> numUniqueNames list_of_set (findall2 internalRegsPattern example_text) = 1
     \<and> numUniqueSignalNames list_of_set (findall2 internalWiresPattern example_text)
          (findall2 internalRegsPattern example_text) = 2
     \<and> main list_of_set 3 (Some f) [f \<mapsto> Content example_text] =
          \<lparr>ending = Completed,
           console = [fileReadSuccess,
             goodbyeMsg ''foo_internal_signals.txt'' ''foo_internal_signals.csv'',
             internalSignalsSummaryMsg ''foo'' 1 1 2],
           files = [(''foo_internal_signals.csv'', example_csv),
             (''foo_internal_signals.txt'', example_report f)]\<rparr>
     \<and> list_all (\<lambda>s. \<not> contains ''clk'' s \<and> \<not> contains ''data'' s)
          [example_csv, example_report ''foo.v'', fileReadSuccess,
           goodbyeMsg ''foo_internal_signals.txt'' ''foo_internal_signals.csv'',
           internalSignalsSummaryMsg ''foo'' 1 1 2]"
proof -
  have name: "resolveModuleName example_text = (''foo'', [])"
    by (simp add: resolveModuleName_def example_module)
  have uw: "numUniqueNames list_of_set [(''[3:0]'', ''internal_a'')] = 1"
    using assms by (simp add: numUniqueNames_card)
  have ur: "numUniqueNames list_of_set [([], ''internal_b''), ([], ''internal_b'')] = 1"
    using assms by (simp add: numUniqueNames_card)
  have ut: "numUniqueSignalNames list_of_set [(''[3:0]'', ''internal_a'')]
      [([], ''internal_b''), ([], ''internal_b'')] = 2"
    using uw ur by (simp add: numUniqueSignalNames_def numUniqueNames_def)
  have run: "main list_of_set 3 (Some f) [f \<mapsto> Content example_text] =
          \<lparr>ending = Completed,
           console = [fileReadSuccess,
             goodbyeMsg ''foo_internal_signals.txt'' ''foo_internal_signals.csv'',
             internalSignalsSummaryMsg ''foo'' 1 1 2],
           files = [(''foo_internal_signals.csv'', example_csv),
             (''foo_internal_signals.txt'', example_report f)]\<rparr>"
    by (simp add: main_def extraction_def name extractWires_def extractRegs_def
        extractDeclarations_def example_wires example_regs uw ur ut example_dict_csv Let_def
        example_report_str)
  show ?thesis
    using name uw ur ut run example_clean by (simp add: example_wires example_regs)
qed

theorem end_to_end_example_witness:
  "set_order remdups
     \<and> files (main remdups 3 (Some ''foo.v'') [''foo.v'' \<mapsto> Content example_text]) =
          [(''foo_internal_signals.csv'', example_csv),
           (''foo_internal_signals.txt'', example_report ''foo.v'')]"
  using end_to_end_example [OF set_order_remdups, of "''foo.v''"]
  by (simp add: set_order_remdups)

section \<open>The scan and the declarations it finds\<close>

lemma match_at_moved:
  assumes "match_at rx b a = Some (b', a', g)"
  shows "\<exists>u. a = u @ a' \<and> b' = rev u @ b"
proof -
  from assms have "(b', a', g) \<in> set (run rx (b, a, Map.empty))"
    by (auto simp: match_at_def split: list.splits)
  then have "moved (b, a, Map.empty) (b', a', g)"
    by (rule run_moved)
  then show ?thesis
    by (simp add: moved_def)
qed

lemma scan_None:
  "match_at rx b a = None \<Longrightarrow>
     scan rx b a = (case a of [] \<Rightarrow> [] | c # cs \<Rightarrow> scan rx (c # b) cs)"
  by (simp add: scan.simps [of rx b a])

lemma scan_Some:
  "match_at rx b a = Some (b1, a1, g1) \<Longrightarrow>
     scan rx b a = \<lparr>m_start = length b, m_end = length b1, m_groups = g1\<rparr>
       # (if length a1 < length a then scan rx b1 a1
          else case a of [] \<Rightarrow> [] | c # cs \<Rightarrow> scan rx (c # b) cs)"
  by (simp add: scan.simps [of rx b a])

lemma scan_sound:
  "m \<in> set (scan rx b a) \<Longrightarrow>
     \<exists>u v b' a'. a = u @ v \<and> m_start m = length b + length u
       \<and> match_at rx (rev u @ b) v = Some (b', a', m_groups m) \<and> m_end m = length b'"
proof (induction rx b a rule: scan.induct)
  case (1 rx b a)
  show ?case
  proof (cases "match_at rx b a")
    case None
    with "1.prems" obtain c cs where a: "a = c # cs" and m: "m \<in> set (scan rx (c # b) cs)"
      by (auto simp: scan_None split: list.splits)
    from "1.IH"(1) [OF None a m] obtain u v b' a' where
      "cs = u @ v" "m_start m = length (c # b) + length u"
      "match_at rx (rev u @ c # b) v = Some (b', a', m_groups m)" "m_end m = length b'"
      by blast
    then have "a = (c # u) @ v \<and> m_start m = length b + length (c # u)
       \<and> match_at rx (rev (c # u) @ b) v = Some (b', a', m_groups m) \<and> m_end m = length b'"
      using a by simp
    then show ?thesis by blast
  next
    case (Some st)
    obtain b1 a1 g1 where st: "st = (b1, a1, g1)"
      by (cases st) auto
    let ?m0 = "\<lparr>m_start = length b, m_end = length b1, m_groups = g1\<rparr>"
    note Some' = Some [unfolded st]
    from "1.prems" Some st have
      "m = ?m0 \<or> (length a1 < length a \<and> m \<in> set (scan rx b1 a1))
         \<or> (\<not> length a1 < length a \<and> (\<exists>c cs. a = c # cs \<and> m \<in> set (scan rx (c # b) cs)))"
      by (auto simp: scan_Some split: list.splits if_splits)
    then consider (first) "m = ?m0"
      | (later) "length a1 < length a" "m \<in> set (scan rx b1 a1)"
      | (empty) c cs where "\<not> length a1 < length a" "a = c # cs" "m \<in> set (scan rx (c # b) cs)"
      by blast
    then show ?thesis
    proof cases
      case first
      then have "a = [] @ a \<and> m_start m = length b + length ([] :: string)
         \<and> match_at rx (rev [] @ b) a = Some (b1, a1, m_groups m) \<and> m_end m = length b1"
        using Some st by simp
      then show ?thesis by blast
    next
      case later
      from Some st obtain w where w: "a = w @ a1" "b1 = rev w @ b"
        using match_at_moved by blast
      from "1.IH"(2) [OF Some' refl refl later(1) later(2)]
      obtain u v b' a' where
        "a1 = u @ v" "m_start m = length b1 + length u"
        "match_at rx (rev u @ b1) v = Some (b', a', m_groups m)" "m_end m = length b'"
        by auto
      then have "a = (w @ u) @ v \<and> m_start m = length b + length (w @ u)
         \<and> match_at rx (rev (w @ u) @ b) v = Some (b', a', m_groups m) \<and> m_end m = length b'"
        using w by simp
      then show ?thesis by blast
    next
      case empty
      from "1.IH"(3) [OF Some' refl refl empty(1) empty(2) empty(3)]
      obtain u v b' a' where
        "cs = u @ v" "m_start m = length (c # b) + length u"
        "match_at rx (rev u @ c # b) v = Some (b', a', m_groups m)" "m_end m = length b'"
        by auto
      then have "a = (c # u) @ v \<and> m_start m = length b + length (c # u)
         \<and> match_at rx (rev (c # u) @ b) v = Some (b', a', m_groups m) \<and> m_end m = length b'"
        using empty(2) by simp
      then show ?thesis by blast
    qed
  qed
qed

lemma scan_complete:
  assumes "a = u @ v"
    and "match_at rx (rev u @ b) v = Some (b', a', g)"
    and "\<forall>m\<in>set (scan rx b a). \<not> (m_start m < length b + length u \<and> length b + length u < m_end m)"
  shows "\<exists>m\<in>set (scan rx b a). m_start m = length b + length u \<and> m_end m = length b' \<and> m_groups m = g"
  using assms
proof (induction rx b a arbitrary: u rule: scan.induct)
  case (1 rx b a)
  show ?case
  proof (cases "match_at rx b a")
    case None
    with "1.prems"(1,2) obtain c u' where u: "u = c # u'"
      by (cases u) auto
    then have a: "a = c # (u' @ v)"
      using "1.prems"(1) by simp
    have eq: "scan rx b a = scan rx (c # b) (u' @ v)"
      using scan_None [OF None] by (simp add: a)
    have "\<exists>m\<in>set (scan rx (c # b) (u' @ v)).
        m_start m = length (c # b) + length u' \<and> m_end m = length b' \<and> m_groups m = g"
    proof (rule "1.IH"(1) [OF None a])
      show "u' @ v = u' @ v" by simp
      show "match_at rx (rev u' @ c # b) v = Some (b', a', g)"
        using "1.prems"(2) u by simp
      show "\<forall>m\<in>set (scan rx (c # b) (u' @ v)).
          \<not> (m_start m < length (c # b) + length u' \<and> length (c # b) + length u' < m_end m)"
        using "1.prems"(3) u eq by simp
    qed
    then show ?thesis
      using eq u by simp
  next
    case (Some st)
    obtain b1 a1 g1 where st: "st = (b1, a1, g1)"
      by (cases st) auto
    let ?m0 = "\<lparr>m_start = length b, m_end = length b1, m_groups = g1\<rparr>"
    let ?rest = "if length a1 < length a then scan rx b1 a1
                 else case a of [] \<Rightarrow> [] | c # cs \<Rightarrow> scan rx (c # b) cs"
    note Some' = Some [unfolded st]
    have eq: "scan rx b a = ?m0 # ?rest"
      using Some' by (simp add: scan_Some)
    show ?thesis
    proof (cases u)
      case Nil
      then have "match_at rx b a = Some (b', a', g)"
        using "1.prems"(1,2) by simp
      then have "b1 = b'" "g1 = g"
        using Some st by simp_all
      then have "?m0 \<in> set (scan rx b a) \<and> m_start ?m0 = length b + length u
          \<and> m_end ?m0 = length b' \<and> m_groups ?m0 = g"
        using Nil unfolding eq by simp
      then show ?thesis
        by blast
    next
      case (Cons c u')
      then have a: "a = c # (u' @ v)"
        using "1.prems"(1) by simp
      from Some st obtain w where w: "a = w @ a1" "b1 = rev w @ b"
        using match_at_moved by blast
      have "\<not> (m_start ?m0 < length b + length u \<and> length b + length u < m_end ?m0)"
        using "1.prems"(3) unfolding eq by auto
      then have wu: "length w \<le> length u"
        using Cons w by simp
      have rest: "\<forall>m\<in>set ?rest.
          \<not> (m_start m < length b + length u \<and> length b + length u < m_end m)"
        using "1.prems"(3) unfolding eq by simp
      show ?thesis
      proof (cases "length a1 < length a")
        case True
        from w "1.prems"(1) have "w @ a1 = u @ v" by simp
        with wu obtain u2 where u2: "u = w @ u2" "a1 = u2 @ v"
          by (auto simp: append_eq_append_conv_if) (metis append_take_drop_id)
        have "\<exists>m\<in>set (scan rx b1 a1).
            m_start m = length b1 + length u2 \<and> m_end m = length b' \<and> m_groups m = g"
        proof (rule "1.IH"(2) [OF Some' refl refl True])
          show "a1 = u2 @ v" by (rule u2)
          show "match_at rx (rev u2 @ b1) v = Some (b', a', g)"
            using "1.prems"(2) u2 w by simp
          show "\<forall>m\<in>set (scan rx b1 a1).
              \<not> (m_start m < length b1 + length u2 \<and> length b1 + length u2 < m_end m)"
            using rest True u2 w by (simp add: ac_simps)
        qed
        then show ?thesis
          unfolding eq using True u2 w by (simp add: ac_simps)
      next
        case False
        have "\<exists>m\<in>set (scan rx (c # b) (u' @ v)).
            m_start m = length (c # b) + length u' \<and> m_end m = length b' \<and> m_groups m = g"
        proof (rule "1.IH"(3) [OF Some' refl refl False a])
          show "u' @ v = u' @ v" by simp
          show "match_at rx (rev u' @ c # b) v = Some (b', a', g)"
            using "1.prems"(2) Cons by simp
          show "\<forall>m\<in>set (scan rx (c # b) (u' @ v)).
              \<not> (m_start m < length (c # b) + length u' \<and> length (c # b) + length u' < m_end m)"
            using rest False a Cons by simp
        qed
        then show ?thesis
          unfolding eq using False a Cons by simp
      qed
    qed
  qed
qed

lemma preceded_by_iff:
  "preceded_by token i (rev pre) \<longleftrightarrow>
     (\<exists>ws. length ws = i \<and> list_all is_space ws \<and> suffix (token @ ws) pre)"
proof
  assume p: "preceded_by token i (rev pre)"
  define ws where "ws = rev (take i (rev pre))"
  from p have len: "i + length token \<le> length pre"
    and sp: "list_all is_space (take i (rev pre))"
    and tok: "take (length token) (drop i (rev pre)) = rev token"
    by (simp_all add: preceded_by_def)
  define d where "d = drop i (rev pre)"
  have "rev pre = take i (rev pre) @ d"
    by (simp add: d_def)
  moreover have "d = take (length token) d @ drop (length token) d"
    by simp
  ultimately have "rev pre = take i (rev pre) @ take (length token) d @ drop (length token) d"
    by simp
  then have "rev pre = rev ws @ rev token @ drop (length token) (drop i (rev pre))"
    using tok by (simp add: ws_def d_def)
  then have "rev (rev pre) = rev (rev ws @ rev token @ drop (length token) (drop i (rev pre)))"
    by (rule arg_cong)
  then have "pre = rev (drop (length token) (drop i (rev pre))) @ token @ ws"
    by simp
  then have "suffix (token @ ws) pre"
    by (metis suffixI)
  moreover have "length ws = i"
    using len by (simp add: ws_def)
  moreover have "list_all is_space ws"
    using sp by (simp add: ws_def list_all_iff)
  ultimately show "\<exists>ws. length ws = i \<and> list_all is_space ws \<and> suffix (token @ ws) pre"
    by blast
next
  assume "\<exists>ws. length ws = i \<and> list_all is_space ws \<and> suffix (token @ ws) pre"
  then obtain ws x where ws: "length ws = i" "list_all is_space ws" and pre: "pre = x @ token @ ws"
    by (auto simp: suffix_def)
  have "rev pre = rev ws @ rev token @ rev x"
    by (simp add: pre)
  then show "preceded_by token i (rev pre)"
    using ws by (simp add: preceded_by_def list_all_iff)
qed

lemma seventeen: "i < 17 \<longleftrightarrow> i \<le> (16 :: nat)"
  by arith

lemma port_preceded_iff:
  "port_preceded (rev pre) \<longleftrightarrow>
     (\<exists>ws. length ws \<le> 16 \<and> list_all is_space ws
        \<and> (suffix (''input'' @ ws) pre \<or> suffix (''output'' @ ws) pre))"
proof -
  have "port_preceded (rev pre) \<longleftrightarrow>
      (\<exists>i\<le>16. preceded_by ''input'' i (rev pre) \<or> preceded_by ''output'' i (rev pre))"
    unfolding port_preceded_def maxNumWhiteSpaces_def list_ex_iff
    by (auto simp: seventeen simp del: upt_Suc)
  then show ?thesis
    unfolding preceded_by_iff by blast
qed

lemma match_at_declaration_pattern_Some:
  "match_at (declaration_pattern kw) b a = Some st \<Longrightarrow> \<not> port_preceded b"
  by (simp add: match_at_declaration_pattern split: if_splits)

lemma match_at_declaration_pattern_free:
  "\<not> port_preceded b \<Longrightarrow>
     match_at (declaration_pattern kw) b a = match_at (declaration_body kw) b a"
  by (simp add: match_at_def run_declaration_pattern)

lemma finditer_start_split:
  assumes "m \<in> set (finditer rx (pre @ suf))" and "m_start m = length pre"
  shows "\<exists>b' a'. match_at rx (rev pre) suf = Some (b', a', m_groups m) \<and> m_end m = length b'"
proof -
  from assms(1) obtain u v b' a' where
    uv: "pre @ suf = u @ v" and st: "m_start m = length ([] :: string) + length u"
    and ma: "match_at rx (rev u @ []) v = Some (b', a', m_groups m)" and e: "m_end m = length b'"
    unfolding finditer_def by (blast dest: scan_sound)
  from st assms(2) have "length u = length pre" by simp
  with uv have "u = pre" "v = suf" by simp_all
  with ma e show ?thesis by auto
qed

lemma port_preceded_not_found:
  assumes "port_preceded (rev pre)"
  shows "length pre \<notin> m_start ` set (finditer (declaration_pattern kw) (pre @ suf))"
proof
  assume "length pre \<in> m_start ` set (finditer (declaration_pattern kw) (pre @ suf))"
  then obtain m where "m \<in> set (finditer (declaration_pattern kw) (pre @ suf))"
    "m_start m = length pre"
    by auto
  then obtain st where "match_at (declaration_pattern kw) (rev pre) suf = Some st"
    using finditer_start_split by blast
  then show False
    using assms match_at_declaration_pattern_Some by blast
qed

text \<open>
  Claim C2, as amended. Take a position of the text where the declaration shape (the
  keyword, at most two bracketed dimensions, whitespace, an identifier) matches, and that
  does not lie inside an earlier match of the same scan. The scan reports a match that
  starts there, with the groups of that shape, if and only if the keyword is not preceded
  by \<open>input\<close> or \<open>output\<close> and 0 up to 16 whitespace characters. A position so preceded
  starts no match of the wire scan and none of the register scan.
\<close>

theorem declaration_found_iff_not_port:
  assumes "match_at (declaration_body kw) (rev pre) suf = Some (b', a', g)"
    and "\<forall>m\<in>set (finditer (declaration_pattern kw) (pre @ suf)).
           \<not> (m_start m < length pre \<and> length pre < m_end m)"
  shows "((\<exists>m\<in>set (finditer (declaration_pattern kw) (pre @ suf)).
             m_start m = length pre \<and> m_end m = length b' \<and> m_groups m = g)
           \<longleftrightarrow> \<not> port_preceded (rev pre))
       \<and> (port_preceded (rev pre) \<longrightarrow>
             length pre \<notin> m_start ` set (finditer internalWiresPattern (pre @ suf))
           \<and> length pre \<notin> m_start ` set (finditer internalRegsPattern (pre @ suf)))"
proof -
  have "\<exists>m\<in>set (finditer (declaration_pattern kw) (pre @ suf)).
      m_start m = length pre \<and> m_end m = length b' \<and> m_groups m = g"
    if free: "\<not> port_preceded (rev pre)"
  proof -
    have "match_at (declaration_pattern kw) (rev pre @ []) suf = Some (b', a', g)"
      using assms(1) free by (simp add: match_at_declaration_pattern_free)
    moreover have "\<forall>m\<in>set (scan (declaration_pattern kw) [] (pre @ suf)).
        \<not> (m_start m < length ([] :: string) + length pre
            \<and> length ([] :: string) + length pre < m_end m)"
      using assms(2) by (simp add: finditer_def)
    ultimately have "\<exists>m\<in>set (scan (declaration_pattern kw) [] (pre @ suf)).
        m_start m = length ([] :: string) + length pre \<and> m_end m = length b' \<and> m_groups m = g"
      by (intro scan_complete) simp_all
    then show ?thesis
      by (simp add: finditer_def)
  qed
  moreover have "\<not> port_preceded (rev pre)"
    if "\<exists>m\<in>set (finditer (declaration_pattern kw) (pre @ suf)). m_start m = length pre"
  proof
    assume "port_preceded (rev pre)"
    from port_preceded_not_found [OF this, of kw suf] that show False
      by force
  qed
  ultimately show ?thesis
    using port_preceded_not_found [of pre "''wire''" suf]
      port_preceded_not_found [of pre "''reg''" suf]
    unfolding internalWiresPattern_def internalRegsPattern_def by blast
qed

lemma finditer_declarations:
  "finditer (declaration_pattern kw) t = declarations_from kw [] t"
  by (simp add: finditer_def declarations_from_def)

theorem declaration_found_iff_not_port_witness:
  "match_at (declaration_body ''wire'') (rev ''reg a; '') ''wire [3:0] b;'' \<noteq> None
     \<and> \<not> port_preceded (rev ''reg a; '')
     \<and> length ''reg a; '' \<in> m_start ` set (finditer internalWiresPattern (''reg a; '' @ ''wire [3:0] b;''))
     \<and> match_at (declaration_body ''wire'') (rev ''input '') ''wire clk;'' \<noteq> None
     \<and> port_preceded (rev ''input '')
     \<and> length ''input '' \<notin> m_start ` set (finditer internalWiresPattern (''input '' @ ''wire clk;''))
     \<and> length ''input '' \<notin> m_start ` set (finditer internalRegsPattern (''input '' @ ''wire clk;''))"
proof -
  have a1: "match_at (declaration_body ''wire'') (rev ''reg a; '') ''wire [3:0] b;'' \<noteq> None"
    by code_simp
  have a2: "\<forall>m\<in>set (finditer (declaration_pattern ''wire'') (''reg a; '' @ ''wire [3:0] b;'')).
           \<not> (m_start m < length ''reg a; '' \<and> length ''reg a; '' < m_end m)"
    unfolding finditer_declarations by code_simp
  have a3: "\<not> port_preceded (rev ''reg a; '')"
    by code_simp
  have b1: "match_at (declaration_body ''wire'') (rev ''input '') ''wire clk;'' \<noteq> None"
    by code_simp
  have b2: "\<forall>m\<in>set (finditer (declaration_pattern ''wire'') (''input '' @ ''wire clk;'')).
           \<not> (m_start m < length ''input '' \<and> length ''input '' < m_end m)"
    unfolding finditer_declarations by code_simp
  have b3: "port_preceded (rev ''input '')"
    by code_simp
  from a1 obtain b' a' g where
    "match_at (declaration_body ''wire'') (rev ''reg a; '') ''wire [3:0] b;'' = Some (b', a', g)"
    by auto
  from declaration_found_iff_not_port [OF this a2] a3
  have a: "length ''reg a; '' \<in> m_start ` set (finditer internalWiresPattern (''reg a; '' @ ''wire [3:0] b;''))"
    unfolding internalWiresPattern_def by force
  from b1 obtain b' a' g where
    "match_at (declaration_body ''wire'') (rev ''input '') ''wire clk;'' = Some (b', a', g)"
    by auto
  from declaration_found_iff_not_port [OF this b2] b3
  have b: "length ''input '' \<notin> m_start ` set (finditer internalWiresPattern (''input '' @ ''wire clk;''))
     \<and> length ''input '' \<notin> m_start ` set (finditer internalRegsPattern (''input '' @ ''wire clk;''))"
    by blast
  show ?thesis
    using a1 a3 a b1 b3 b by blast
qed

text \<open>
  Claim C2, as stated, fails where two declaration shapes overlap. In \<open>wire wire x;\<close> the
  shape matches at position 5 (\<open>wire x;\<close>), which is not preceded by \<open>input\<close> or \<open>output\<close>;
  the scan has taken \<open>wire wire \<close> as the declaration of a signal named \<open>wire\<close> and goes on
  behind it, so no match starts at position 5 and \<open>x\<close> is not in the output.
\<close>

theorem declaration_overlap_counterexample:
  "match_at (declaration_body ''wire'') (rev ''wire '') ''wire x;'' \<noteq> None
     \<and> \<not> port_preceded (rev ''wire '')
     \<and> length ''wire '' \<notin> m_start ` set (finditer internalWiresPattern (''wire '' @ ''wire x;''))
     \<and> findall2 internalWiresPattern (''wire '' @ ''wire x;'') = [([], ''wire'')]"
proof -
  have "match_at (declaration_body ''wire'') (rev ''wire '') ''wire x;'' \<noteq> None"
    by code_simp
  moreover have "\<not> port_preceded (rev ''wire '')"
    by code_simp
  moreover have "length ''wire '' \<notin> m_start ` set (declarations_from ''wire'' [] (''wire '' @ ''wire x;''))"
    by code_simp
  moreover have "findall2 internalWiresPattern (''wire '' @ ''wire x;'') = [([], ''wire'')]"
    unfolding findall2_wires by code_simp
  ultimately show ?thesis
    by (simp add: internalWiresPattern_def finditer_declarations)
qed

section \<open>How a pattern reads the text\<close>

lemma le_takeWhile_iff:
  "n \<le> length (takeWhile P a) \<longleftrightarrow> n \<le> length a \<and> list_all P (take n a)"
  by (induction a arbitrary: n) (auto simp: take_Cons split: nat.splits)

lemma advance_append:
  "advance (length w) (b, w @ a', g) = (rev w @ b, a', g)"
  by (simp add: advance_def)

lemma in_run_Lit:
  "st' \<in> set (run (Lit s) (b, a, g)) \<longleftrightarrow> (\<exists>a'. a = s @ a' \<and> st' = (rev s @ b, a', g))"
proof
  assume "st' \<in> set (run (Lit s) (b, a, g))"
  then have t: "take (length s) a = s" and st': "st' = advance (length s) (b, a, g)"
    by (auto split: if_splits)
  from t have "a = s @ drop (length s) a"
    by (metis append_take_drop_id)
  moreover from st' t have "st' = (rev s @ b, drop (length s) a, g)"
    by (simp add: advance_def)
  ultimately show "\<exists>a'. a = s @ a' \<and> st' = (rev s @ b, a', g)"
    by blast
next
  assume "\<exists>a'. a = s @ a' \<and> st' = (rev s @ b, a', g)"
  then show "st' \<in> set (run (Lit s) (b, a, g))"
    by (auto simp: advance_def)
qed

lemma in_run_Many_split:
  "st' \<in> set (run (Many P) (b, a, g)) \<longleftrightarrow>
     (\<exists>w a'. a = w @ a' \<and> list_all P w \<and> st' = (rev w @ b, a', g))"
proof
  assume "st' \<in> set (run (Many P) (b, a, g))"
  then obtain n where n: "n \<le> length (takeWhile P a)" and st': "st' = advance n (b, a, g)"
    unfolding in_run_Many by blast
  from n have "list_all P (take n a)"
    by (simp add: le_takeWhile_iff)
  moreover have "a = take n a @ drop n a"
    by simp
  moreover have "st' = (rev (take n a) @ b, drop n a, g)"
    using st' by (simp add: advance_def)
  ultimately show "\<exists>w a'. a = w @ a' \<and> list_all P w \<and> st' = (rev w @ b, a', g)"
    by blast
next
  assume "\<exists>w a'. a = w @ a' \<and> list_all P w \<and> st' = (rev w @ b, a', g)"
  then obtain w a' where w: "a = w @ a'" "list_all P w" "st' = (rev w @ b, a', g)"
    by blast
  then have "length w \<le> length (takeWhile P a)"
    by (simp add: le_takeWhile_iff)
  moreover have "st' = advance (length w) (b, a, g)"
    using w by (simp add: advance_append)
  ultimately show "st' \<in> set (run (Many P) (b, a, g))"
    unfolding in_run_Many by blast
qed

lemma in_run_Many1_split:
  "st' \<in> set (run (Many1 P) (b, a, g)) \<longleftrightarrow>
     (\<exists>w a'. a = w @ a' \<and> w \<noteq> [] \<and> list_all P w \<and> st' = (rev w @ b, a', g))"
proof
  assume "st' \<in> set (run (Many1 P) (b, a, g))"
  then obtain n where n: "1 \<le> n" "n \<le> length (takeWhile P a)"
    and st': "st' = advance n (b, a, g)"
    unfolding in_run_Many1 by blast
  from n have "list_all P (take n a)" and "n \<le> length a"
    by (simp_all add: le_takeWhile_iff)
  moreover from this n have "take n a \<noteq> []"
    by auto
  moreover have "a = take n a @ drop n a"
    by simp
  moreover have "st' = (rev (take n a) @ b, drop n a, g)"
    using st' by (simp add: advance_def)
  ultimately show "\<exists>w a'. a = w @ a' \<and> w \<noteq> [] \<and> list_all P w \<and> st' = (rev w @ b, a', g)"
    by blast
next
  assume "\<exists>w a'. a = w @ a' \<and> w \<noteq> [] \<and> list_all P w \<and> st' = (rev w @ b, a', g)"
  then obtain w a' where w: "a = w @ a'" "w \<noteq> []" "list_all P w" "st' = (rev w @ b, a', g)"
    by blast
  then have "length w \<le> length (takeWhile P a)"
    by (simp add: le_takeWhile_iff)
  moreover have "1 \<le> length w"
    using w(2) by (cases w) simp_all
  moreover have "st' = advance (length w) (b, a, g)"
    using w by (simp add: advance_append)
  ultimately show "st' \<in> set (run (Many1 P) (b, a, g))"
    unfolding in_run_Many1 by blast
qed

lemma in_run_Opt:
  "st' \<in> set (run (Opt r) (b, a, g)) \<longleftrightarrow> st' \<in> set (run r (b, a, g)) \<or> st' = (b, a, g)"
  by auto

lemma in_run_Seq:
  "st' \<in> set (run (Seq r1 r2) (b, a, g)) \<longleftrightarrow> (\<exists>m\<in>set (run r1 (b, a, g)). st' \<in> set (run r2 m))"
  by auto

lemma in_run_SeqI:
  "m \<in> set (run r1 st) \<Longrightarrow> st' \<in> set (run r2 m) \<Longrightarrow> st' \<in> set (run (Seq r1 r2) st)"
  by (cases st) auto

lemma in_run_Group:
  "st' \<in> set (run (Group i r) (b, a, g)) \<longleftrightarrow> (\<exists>m\<in>set (run r (b, a, g)). st' = capture i a m)"
  by auto

lemma in_run_Opt_Lit:
  "st' \<in> set (run (Opt (Lit s)) (b, a, g)) \<longleftrightarrow>
     (\<exists>h a'. a = h @ a' \<and> (h = [] \<or> h = s) \<and> st' = (rev h @ b, a', g))"
  unfolding in_run_Opt in_run_Lit by auto

lemma in_run_Group_Many1:
  "st' \<in> set (run (Group i (Many1 P)) (b, a, g)) \<longleftrightarrow>
     (\<exists>w a'. a = w @ a' \<and> w \<noteq> [] \<and> list_all P w \<and> st' = (rev w @ b, a', g(i \<mapsto> w)))"
proof -
  have "st' \<in> set (run (Group i (Many1 P)) (b, a, g)) \<longleftrightarrow>
      (\<exists>m. m \<in> set (run (Many1 P) (b, a, g)) \<and> st' = capture i a m)"
    unfolding in_run_Group by blast
  also have "\<dots> \<longleftrightarrow>
      (\<exists>w a'. a = w @ a' \<and> w \<noteq> [] \<and> list_all P w \<and> st' = capture i a (rev w @ b, a', g))"
    unfolding in_run_Many1_split by blast
  also have "\<dots> \<longleftrightarrow>
      (\<exists>w a'. a = w @ a' \<and> w \<noteq> [] \<and> list_all P w \<and> st' = (rev w @ b, a', g(i \<mapsto> w)))"
    by (auto simp: capture_def)
  finally show ?thesis .
qed

text \<open>Every way the header pattern matches, spelled out on the text.\<close>

lemma in_run_module_header:
  "(b', a', g') \<in> set (run module_header (b, a, g)) \<longleftrightarrow>
     (\<exists>ws pfx name ws2 hash ws3.
        a = ''module'' @ ws @ pfx @ name @ ws2 @ hash @ ws3 @ ''('' @ a'
      \<and> ws \<noteq> [] \<and> list_all is_space ws \<and> (pfx = [] \<or> pfx = ''$[PREFIX]'')
      \<and> name \<noteq> [] \<and> list_all module_char name
      \<and> list_all newline_or_space ws2 \<and> (hash = [] \<or> hash = ''#'')
      \<and> list_all newline_or_space ws3
      \<and> b' = rev (''module'' @ ws @ pfx @ name @ ws2 @ hash @ ws3 @ ''('') @ b
      \<and> g' = g(1 \<mapsto> name))"
  (is "?L \<longleftrightarrow> ?R")
proof
  assume ?L
  then obtain s1 s2 s3 s4 s5 s6 s7 where
    1: "s1 \<in> set (run (Lit ''module'') (b, a, g))" and
    2: "s2 \<in> set (run (Many1 is_space) s1)" and
    3: "s3 \<in> set (run (Opt (Lit ''$[PREFIX]'')) s2)" and
    4: "s4 \<in> set (run (Group 1 (Many1 module_char)) s3)" and
    5: "s5 \<in> set (run (Many newline_or_space) s4)" and
    6: "s6 \<in> set (run (Opt (Lit ''#'')) s5)" and
    7: "s7 \<in> set (run (Many newline_or_space) s6)" and
    8: "(b', a', g') \<in> set (run (Lit ''('') s7)"
    unfolding module_header_def
    by (auto simp only: in_run_Seq set_concat set_map)
  from 1 obtain a1 where a1: "a = ''module'' @ a1" "s1 = (rev ''module'' @ b, a1, g)"
    unfolding in_run_Lit by blast
  from 2 obtain ws a2 where a2: "a1 = ws @ a2" "ws \<noteq> []" "list_all is_space ws"
    "s2 = (rev ws @ rev ''module'' @ b, a2, g)"
    unfolding a1 in_run_Many1_split by blast
  from 3 obtain pfx a3 where a3: "a2 = pfx @ a3" "pfx = [] \<or> pfx = ''$[PREFIX]''"
    "s3 = (rev pfx @ rev ws @ rev ''module'' @ b, a3, g)"
    unfolding a2 in_run_Opt_Lit by blast
  from 4 obtain name a4 where a4: "a3 = name @ a4" "name \<noteq> []" "list_all module_char name"
    "s4 = (rev name @ rev pfx @ rev ws @ rev ''module'' @ b, a4, g(1 \<mapsto> name))"
    unfolding a3 in_run_Group_Many1 by blast
  from 5 obtain ws2 a5 where a5: "a4 = ws2 @ a5" "list_all newline_or_space ws2"
    "s5 = (rev ws2 @ rev name @ rev pfx @ rev ws @ rev ''module'' @ b, a5, g(1 \<mapsto> name))"
    unfolding a4 in_run_Many_split by blast
  from 6 obtain hash a6 where a6: "a5 = hash @ a6" "hash = [] \<or> hash = ''#''"
    "s6 = (rev hash @ rev ws2 @ rev name @ rev pfx @ rev ws @ rev ''module'' @ b, a6, g(1 \<mapsto> name))"
    unfolding a5 in_run_Opt_Lit by blast
  from 7 obtain ws3 a7 where a7: "a6 = ws3 @ a7" "list_all newline_or_space ws3"
    "s7 = (rev ws3 @ rev hash @ rev ws2 @ rev name @ rev pfx @ rev ws @ rev ''module'' @ b, a7,
           g(1 \<mapsto> name))"
    unfolding a6 in_run_Many_split by blast
  from 8 have a8: "a7 = ''('' @ a'"
    "b' = rev ''('' @ rev ws3 @ rev hash @ rev ws2 @ rev name @ rev pfx @ rev ws @ rev ''module'' @ b"
    "g' = g(1 \<mapsto> name)"
    unfolding a7 in_run_Lit by auto
  have "a = ''module'' @ ws @ pfx @ name @ ws2 @ hash @ ws3 @ ''('' @ a'"
    by (simp add: a1 a2 a3 a4 a5 a6 a7 a8)
  moreover have "b' = rev (''module'' @ ws @ pfx @ name @ ws2 @ hash @ ws3 @ ''('') @ b"
    by (simp add: a8)
  ultimately show ?R
    using a2 a3 a4 a5 a6 a7 a8 by blast
next
  assume ?R
  then obtain ws pfx name ws2 hash ws3 where
    a: "a = ''module'' @ ws @ pfx @ name @ ws2 @ hash @ ws3 @ ''('' @ a'" and
    c: "ws \<noteq> []" "list_all is_space ws" "pfx = [] \<or> pfx = ''$[PREFIX]''"
      "name \<noteq> []" "list_all module_char name"
      "list_all newline_or_space ws2" "hash = [] \<or> hash = ''#''"
      "list_all newline_or_space ws3" and
    b': "b' = rev (''module'' @ ws @ pfx @ name @ ws2 @ hash @ ws3 @ ''('') @ b" and
    g': "g' = g(1 \<mapsto> name)"
    by blast
  let ?s1 = "(rev ''module'' @ b, ws @ pfx @ name @ ws2 @ hash @ ws3 @ ''('' @ a', g)"
  let ?s2 = "(rev ws @ rev ''module'' @ b, pfx @ name @ ws2 @ hash @ ws3 @ ''('' @ a', g)"
  let ?s3 = "(rev pfx @ rev ws @ rev ''module'' @ b, name @ ws2 @ hash @ ws3 @ ''('' @ a', g)"
  let ?s4 = "(rev name @ rev pfx @ rev ws @ rev ''module'' @ b, ws2 @ hash @ ws3 @ ''('' @ a',
              g(1 \<mapsto> name))"
  let ?s5 = "(rev ws2 @ rev name @ rev pfx @ rev ws @ rev ''module'' @ b, hash @ ws3 @ ''('' @ a',
              g(1 \<mapsto> name))"
  let ?s6 = "(rev hash @ rev ws2 @ rev name @ rev pfx @ rev ws @ rev ''module'' @ b,
              ws3 @ ''('' @ a', g(1 \<mapsto> name))"
  let ?s7 = "(rev ws3 @ rev hash @ rev ws2 @ rev name @ rev pfx @ rev ws @ rev ''module'' @ b,
              ''('' @ a', g(1 \<mapsto> name))"
  have 1: "?s1 \<in> set (run (Lit ''module'') (b, a, g))"
    unfolding in_run_Lit a by blast
  have 2: "?s2 \<in> set (run (Many1 is_space) ?s1)"
    unfolding in_run_Many1_split using c by blast
  have 3: "?s3 \<in> set (run (Opt (Lit ''$[PREFIX]'')) ?s2)"
    unfolding in_run_Opt_Lit using c by blast
  have 4: "?s4 \<in> set (run (Group 1 (Many1 module_char)) ?s3)"
    unfolding in_run_Group_Many1 using c by blast
  have 5: "?s5 \<in> set (run (Many newline_or_space) ?s4)"
    unfolding in_run_Many_split using c by blast
  have 6: "?s6 \<in> set (run (Opt (Lit ''#'')) ?s5)"
    unfolding in_run_Opt_Lit using c by blast
  have 7: "?s7 \<in> set (run (Many newline_or_space) ?s6)"
    unfolding in_run_Many_split using c by blast
  have 8: "(b', a', g') \<in> set (run (Lit ''('') ?s7)"
    unfolding in_run_Lit b' g' by simp
  note 8
  note in_run_SeqI [OF 7 this]
  note in_run_SeqI [OF 6 this]
  note in_run_SeqI [OF 5 this]
  note in_run_SeqI [OF 4 this]
  note in_run_SeqI [OF 3 this]
  note in_run_SeqI [OF 2 this]
  note in_run_SeqI [OF 1 this]
  then show ?L
    unfolding module_header_def .
qed

section \<open>Module headers and the module name\<close>

lemma space_not_module_char: "is_space c \<Longrightarrow> \<not> module_char c"
  by (auto simp: is_space_def module_char_def is_letter_def is_digit_def in_range_def)

lemma newline_or_space_eq: "newline_or_space c = is_space c"
  by (auto simp: newline_or_space_def is_space_def in_range_def)

lemma space_not_m: "is_space c \<Longrightarrow> c \<noteq> CHR ''m''"
  by (auto simp: is_space_def in_range_def)

lemma module_char_module: "list_all module_char ''module''"
  by code_simp

lemma not_module_char_marks:
  "\<not> module_char (CHR ''#'')" "\<not> module_char (CHR ''('')" "\<not> module_char (CHR ''$'')"
  by code_simp+

lemma not_space_marks:
  "\<not> is_space (CHR ''#'')" "\<not> is_space (CHR ''('')" "\<not> is_space (CHR ''$'')"
  by code_simp+

lemma suffix_skip_segment:
  assumes "suffix v (x @ r)" and "c \<notin> set x" and "v \<noteq> []" and "hd v = c"
  shows "suffix v r"
proof -
  from assms(1) consider "suffix v r" | v' where "v = v' @ r" "suffix v' x"
    by (auto simp: suffix_append)
  then show ?thesis
  proof cases
    case 1
    then show ?thesis .
  next
    case 2
    show ?thesis
    proof (cases v')
      case Nil
      with 2 show ?thesis by simp
    next
      case (Cons d ds)
      with 2 have "hd v = d" by simp
      moreover from 2(2) Cons have "d \<in> set x"
        by (metis list.set_intros(1) set_mono_suffix subsetD)
      ultimately show ?thesis
        using assms(2,4) by simp
    qed
  qed
qed

text \<open>The tail of a header: whitespace, at most one \<open>#\<close>, whitespace, the parenthesis.\<close>

lemma header_tail_first:
  assumes "list_all newline_or_space ws2" "hash = [] \<or> hash = ''#''"
    "list_all newline_or_space ws3"
  shows "\<exists>r. dropWhile is_space (ws2 @ hash @ ws3 @ ''('' @ a1) = CHR ''#'' # r
           \<or> dropWhile is_space (ws2 @ hash @ ws3 @ ''('' @ a1) = CHR ''('' # r"
proof -
  have s2: "\<forall>c\<in>set ws2. is_space c" and s3: "\<forall>c\<in>set ws3. is_space c"
    using assms(1,3) by (simp_all add: list_all_iff newline_or_space_eq)
  from assms(2) show ?thesis
  proof
    assume "hash = []"
    then have "dropWhile is_space (ws2 @ hash @ ws3 @ ''('' @ a1) = CHR ''('' # a1"
      using s2 s3 not_space_marks(2) by (simp add: dropWhile_append3)
    then show ?thesis by blast
  next
    assume "hash = ''#''"
    then have "dropWhile is_space (ws2 @ hash @ ws3 @ ''('' @ a1) = CHR ''#'' # ws3 @ ''('' @ a1"
      using s2 not_space_marks(1) by (simp add: dropWhile_append3)
    then show ?thesis by blast
  qed
qed

lemma header_tail_no_m:
  assumes "list_all newline_or_space ws2" "hash = [] \<or> hash = ''#''"
    "list_all newline_or_space ws3"
  shows "CHR ''m'' \<notin> set (ws2 @ hash @ ws3 @ ''('')"
  using assms space_not_m by (auto simp: list_all_iff newline_or_space_eq)

lemma header_tail_not_module_char:
  assumes "list_all newline_or_space ws2" "hash = [] \<or> hash = ''#''"
    "list_all newline_or_space ws3"
  shows "takeWhile module_char (ws2 @ hash @ ws3 @ ''('' @ a1) = []"
proof -
  have "\<not> module_char (hd (ws2 @ hash @ ws3 @ ''('' @ a1))"
  proof (cases ws2)
    case (Cons c cs)
    with assms(1) have "is_space c" by (simp add: newline_or_space_eq)
    with Cons show ?thesis by (simp add: space_not_module_char)
  next
    case Nil
    note ws2 = this
    from assms(2) show ?thesis
    proof
      assume "hash = ''#''"
      with ws2 show ?thesis by (simp add: not_module_char_marks)
    next
      assume h: "hash = []"
      show ?thesis
      proof (cases ws3)
        case (Cons c cs)
        with assms(3) have "is_space c" by (simp add: newline_or_space_eq)
        with Cons ws2 h show ?thesis by (simp add: space_not_module_char)
      next
        case Nil
        with ws2 h show ?thesis by (simp add: not_module_char_marks)
      qed
    qed
  qed
  moreover have "ws2 @ hash @ ws3 @ ''('' @ a1 \<noteq> []"
    by simp
  ultimately show ?thesis
    by (metis hd_Cons_tl takeWhile.simps(2))
qed

text \<open>After the keyword: whitespace, then \<open>$\<close> or the first character of the name.\<close>

lemma header_front:
  assumes "ws \<noteq> []" "list_all is_space ws" "pfx = [] \<or> pfx = ''$[PREFIX]''"
    "name \<noteq> []" "list_all module_char name"
  shows "takeWhile module_char (''module'' @ ws @ pfx @ name @ r) = ''module''"
    and "\<exists>c r'. dropWhile is_space (ws @ pfx @ name @ r) = c # r'
           \<and> (c = CHR ''$'' \<or> module_char c)"
proof -
  from assms(1,2) obtain w ws' where ws: "ws = w # ws'" "is_space w"
    by (cases ws) auto
  then have "\<not> module_char w"
    by (simp add: space_not_module_char)
  then show "takeWhile module_char (''module'' @ ws @ pfx @ name @ r) = ''module''"
    using ws(1) module_char_module
    by (simp add: takeWhile_append2 list_all_iff del: takeWhile.simps(2)) simp
  from assms(4,5) obtain n ns where n: "name = n # ns" "module_char n"
    by (cases name) auto
  have sp: "\<forall>c\<in>set ws. is_space c"
    using assms(2) by (simp add: list_all_iff)
  from assms(3) show "\<exists>c r'. dropWhile is_space (ws @ pfx @ name @ r) = c # r'
           \<and> (c = CHR ''$'' \<or> module_char c)"
  proof
    assume "pfx = []"
    moreover have "\<not> is_space n"
      using n(2) space_not_module_char by blast
    ultimately have "dropWhile is_space (ws @ pfx @ name @ r) = n # ns @ r"
      using sp n(1) by (simp add: dropWhile_append3)
    with n(2) show ?thesis by blast
  next
    assume "pfx = ''$[PREFIX]''"
    then have "dropWhile is_space (ws @ pfx @ name @ r) = CHR ''$'' # ''[PREFIX]'' @ name @ r"
      using sp not_space_marks(3) by (simp add: dropWhile_append3)
    then show ?thesis by blast
  qed
qed

text \<open>No header begins inside another header.\<close>

lemma module_header_no_inner_match:
  assumes m: "(b1, a1, g1) \<in> set (run module_header (b, a, g))"
    and a: "a = u @ v" and u: "u \<noteq> []" and inside: "length a1 < length v"
  shows "run module_header (b2, v, g2) = []"
proof (rule ccontr)
  assume "run module_header (b2, v, g2) \<noteq> []"
  then have "hd (run module_header (b2, v, g2)) \<in> set (run module_header (b2, v, g2))"
    by (rule hd_in_set)
  moreover obtain b3 a3 g3 where "hd (run module_header (b2, v, g2)) = (b3, a3, g3)"
    by (metis prod_cases3)
  ultimately have "(b3, a3, g3) \<in> set (run module_header (b2, v, g2))"
    by simp
  then obtain ws' pfx' name' ws2' hash' ws3' where
    v: "v = ''module'' @ ws' @ pfx' @ name' @ ws2' @ hash' @ ws3' @ ''('' @ a3" and
    c': "ws' \<noteq> []" "list_all is_space ws'" "pfx' = [] \<or> pfx' = ''$[PREFIX]''"
      "name' \<noteq> []" "list_all module_char name'"
    unfolding in_run_module_header by blast
  from m obtain ws pfx name ws2 hash ws3 where
    a': "a = ''module'' @ ws @ pfx @ name @ ws2 @ hash @ ws3 @ ''('' @ a1" and
    c: "ws \<noteq> []" "list_all is_space ws" "pfx = [] \<or> pfx = ''$[PREFIX]''"
      "name \<noteq> []" "list_all module_char name"
      "list_all newline_or_space ws2" "hash = [] \<or> hash = ''#''"
      "list_all newline_or_space ws3"
    unfolding in_run_module_header by blast
  define T where "T = ws2 @ hash @ ws3 @ ''(''"
  have hd_v: "hd v = CHR ''m''" and v_ne: "v \<noteq> []"
    by (simp_all add: v)
  have "suffix v a"
    using a by (simp add: suffix_def)
  moreover have "v \<noteq> a"
    using a u by simp
  ultimately have "suffix v (''odule'' @ ws @ pfx @ name @ T @ a1)"
    unfolding a' T_def by (simp add: suffix_Cons)
  then have "suffix v (ws @ pfx @ name @ T @ a1)"
    by (rule suffix_skip_segment [where c = "CHR ''m''"]) (simp_all add: hd_v v_ne)
  moreover have "CHR ''m'' \<notin> set ws"
    using c(2) space_not_m by (auto simp: list_all_iff)
  ultimately have "suffix v (pfx @ name @ T @ a1)"
    using v_ne hd_v by (rule suffix_skip_segment)
  moreover have "CHR ''m'' \<notin> set pfx"
    using c(3) by auto
  ultimately have sn: "suffix v (name @ T @ a1)"
    using v_ne hd_v by (rule suffix_skip_segment)
  have notail: "\<not> suffix v (T @ a1)"
  proof
    assume "suffix v (T @ a1)"
    moreover have "CHR ''m'' \<notin> set T"
      unfolding T_def using c(6-8) by (rule header_tail_no_m)
    ultimately have "suffix v a1"
      using v_ne hd_v by (rule suffix_skip_segment)
    then have "length v \<le> length a1"
      by (rule suffix_length_le)
    with inside show False by simp
  qed
  from sn notail obtain v' where v': "v = v' @ T @ a1" "suffix v' name"
    by (auto simp: suffix_append)
  have mc: "list_all module_char v'"
    using v'(2) c(5) by (metis list_all_iff set_mono_suffix subsetD)
  have "takeWhile module_char (T @ a1) = []"
    unfolding T_def using header_tail_not_module_char [OF c(6-8), of a1] by simp
  then have "takeWhile module_char v = v'"
    unfolding v'(1) using mc by (simp add: takeWhile_append2 list_all_iff)
  moreover have "takeWhile module_char v = ''module''"
    unfolding v using c'
    by (rule header_front(1))
  ultimately have "v' = ''module''"
    by simp
  with v'(1) v have rest: "T @ a1 = ws' @ pfx' @ name' @ ws2' @ hash' @ ws3' @ ''('' @ a3"
    by simp
  obtain r where "dropWhile is_space (T @ a1) = CHR ''#'' # r
      \<or> dropWhile is_space (T @ a1) = CHR ''('' # r"
    unfolding T_def using header_tail_first [OF c(6-8), of a1] by auto
  moreover obtain d r' where "dropWhile is_space (T @ a1) = d # r'"
    "d = CHR ''$'' \<or> module_char d"
    unfolding rest using header_front(2) [OF c'] by blast
  ultimately show False
    using not_module_char_marks by auto
qed

lemma match_at_in_run:
  "match_at rx b a = Some st \<Longrightarrow> st \<in> set (run rx (b, a, Map.empty))"
  by (auto simp: match_at_def split: list.splits)

lemma run_moduleNamePattern:
  "run moduleNamePattern (b, a, g) =
     (if run (NotBehind (Alt (Lit '' '') (Alt (Lit ''/'') (Cls letter_or_underscore)))) (b, a, g) = []
      then [] else run module_header (b, a, g))"
proof -
  have "run moduleNamePattern (b, a, g) = concat (map (run module_header)
      (run (NotBehind (Alt (Lit '' '') (Alt (Lit ''/'') (Cls letter_or_underscore)))) (b, a, g)))"
    unfolding moduleNamePattern_def by (rule run.simps)
  then show ?thesis
    by (simp del: run.simps(1,2,9))
qed

lemma moduleNamePattern_no_overlap:
  assumes "match_at moduleNamePattern b a = Some (b1, a1, g1)"
    and "a = u @ v" and "u \<noteq> []" and "length a1 < length v"
  shows "match_at moduleNamePattern (rev u @ b) v = None"
proof -
  from assms(1) have "(b1, a1, g1) \<in> set (run moduleNamePattern (b, a, Map.empty))"
    by (rule match_at_in_run)
  then have "(b1, a1, g1) \<in> set (run module_header (b, a, Map.empty))"
    unfolding run_moduleNamePattern by (simp split: if_splits)
  then have "run module_header (rev u @ b, v, Map.empty) = []"
    using assms(2-4) by (rule module_header_no_inner_match)
  then show ?thesis
    unfolding match_at_def run_moduleNamePattern by simp
qed

lemma moduleNamePattern_consumes:
  assumes "match_at moduleNamePattern b a = Some (b1, a1, g1)"
  shows "length a1 < length a"
proof -
  from assms have "(b1, a1, g1) \<in> set (run moduleNamePattern (b, a, Map.empty))"
    by (rule match_at_in_run)
  then have "(b1, a1, g1) \<in> set (run module_header (b, a, Map.empty))"
    unfolding run_moduleNamePattern by (simp split: if_splits)
  then show ?thesis
    unfolding in_run_module_header by auto
qed

text \<open>
  Where no match begins inside another and no match is empty, the scan finds the match
  at every position that has one.
\<close>

lemma every_match_skip:
  assumes "\<And>u v. w = u @ v \<Longrightarrow> v \<noteq> [] \<Longrightarrow> match_at rx (rev u @ b) (v @ a1) = None"
  shows "every_match rx b (w @ a1) = every_match rx (rev w @ b) a1"
  using assms
proof (induction w arbitrary: b)
  case Nil
  then show ?case by simp
next
  case (Cons c w)
  have "match_at rx (rev [] @ b) ((c # w) @ a1) = None"
    by (rule Cons.prems) simp_all
  then have "every_match rx b ((c # w) @ a1) = every_match rx (c # b) (w @ a1)"
    by (simp add: site_match_def)
  also have "\<dots> = every_match rx (rev w @ c # b) a1"
  proof (rule Cons.IH)
    fix u v
    assume "w = u @ v" "v \<noteq> []"
    then have "match_at rx (rev (c # u) @ b) (v @ a1) = None"
      by (intro Cons.prems) simp_all
    then show "match_at rx (rev u @ c # b) (v @ a1) = None"
      by simp
  qed
  finally show ?case by simp
qed

lemma scan_every_match:
  assumes "\<And>b a b1 a1 g1. match_at rx b a = Some (b1, a1, g1) \<Longrightarrow> length a1 < length a"
    and "\<And>b a b1 a1 g1 u v. match_at rx b a = Some (b1, a1, g1) \<Longrightarrow> a = u @ v \<Longrightarrow>
      u \<noteq> [] \<Longrightarrow> length a1 < length v \<Longrightarrow> match_at rx (rev u @ b) v = None"
  shows "scan rx b a = every_match rx b a"
  using assms
proof (induction rx b a rule: scan.induct)
  case (1 rx b a)
  note consumes = "1.prems"(1) and apart = "1.prems"(2)
  show ?case
  proof (cases "match_at rx b a")
    case None
    show ?thesis
    proof (cases a)
      case Nil
      with None show ?thesis
        by (simp add: scan_None site_match_def)
    next
      case (Cons c cs)
      have "scan rx (c # b) cs = every_match rx (c # b) cs"
        using None Cons consumes apart by (rule "1.IH"(1))
      with None Cons show ?thesis
        by (simp add: scan_None site_match_def)
    qed
  next
    case (Some st)
    obtain b1 a1 g1 where st: "st = (b1, a1, g1)"
      by (metis prod_cases3)
    note Some' = Some [unfolded st]
    let ?m0 = "\<lparr>m_start = length b, m_end = length b1, m_groups = g1\<rparr>"
    have shorter: "length a1 < length a"
      using Some' by (rule consumes)
    from Some' obtain w where w: "a = w @ a1" "b1 = rev w @ b"
      using match_at_moved by blast
    with shorter obtain c w' where cw: "w = c # w'"
      by (cases w) auto
    have "scan rx b1 a1 = every_match rx b1 a1"
      using Some' refl refl shorter consumes apart by (rule "1.IH"(2))
    then have l: "scan rx b a = ?m0 # every_match rx b1 a1"
      using Some' shorter by (simp add: scan_Some)
    have "every_match rx (c # b) (w' @ a1) = every_match rx (rev w' @ c # b) a1"
    proof (rule every_match_skip)
      fix u v
      assume "w' = u @ v" "v \<noteq> []"
      then have "match_at rx (rev (c # u) @ b) (v @ a1) = None"
        using w(1) cw by (intro apart [OF Some']) simp_all
      then show "match_at rx (rev u @ c # b) (v @ a1) = None"
        by simp
    qed
    then have "every_match rx b a = ?m0 # every_match rx b1 a1"
      using Some' w cw by (simp add: site_match_def)
    with l show ?thesis
      by simp
  qed
qed

lemma finditer_moduleNamePattern:
  "finditer moduleNamePattern t = every_match moduleNamePattern [] t"
  unfolding finditer_def
  using moduleNamePattern_consumes moduleNamePattern_no_overlap
  by (rule scan_every_match)

lemma run_module_lookbehind:
  "run (NotBehind (Alt (Lit '' '') (Alt (Lit ''/'') (Cls letter_or_underscore)))) (b, a, g) =
     (if header_excluded b then [] else [(b, a, g)])"
  by (cases b) (auto simp: header_excluded_def retreat_def advance_def)

lemma run_moduleNamePattern_excluded:
  "run moduleNamePattern (b, a, g) =
     (if header_excluded b then [] else run module_header (b, a, g))"
  unfolding run_moduleNamePattern run_module_lookbehind by simp

lemma header_front_drop:
  assumes "list_all is_space ws" "pfx = [] \<or> pfx = ''$[PREFIX]''"
    "name \<noteq> []" "list_all module_char name"
  shows "dropWhile is_space (ws @ pfx @ name @ r) = pfx @ name @ r"
proof -
  from assms(3,4) obtain n ns where n: "name = n # ns" "module_char n"
    by (cases name) auto
  then have "\<not> is_space n"
    using space_not_module_char by blast
  then have "\<not> is_space (hd (pfx @ name @ r))"
    using assms(2) n(1) not_space_marks(3) by auto
  moreover have "pfx @ name @ r \<noteq> []"
    using assms(3) by simp
  ultimately have "dropWhile is_space (pfx @ name @ r) = pfx @ name @ r"
    by (metis dropWhile.simps(2) list.collapse)
  moreover have "\<forall>c\<in>set ws. is_space c"
    using assms(1) by (simp add: list_all_iff)
  ultimately show ?thesis
    by (simp add: dropWhile_append)
qed

lemma header_name_unique:
  assumes "a = ''module'' @ ws @ pfx @ name @ ws2 @ hash @ ws3 @ ''('' @ rest"
    and "list_all is_space ws" "pfx = [] \<or> pfx = ''$[PREFIX]''"
      "name \<noteq> []" "list_all module_char name"
      "list_all newline_or_space ws2" "hash = [] \<or> hash = ''#''" "list_all newline_or_space ws3"
    and "a = ''module'' @ ws' @ pfx' @ name' @ ws2' @ hash' @ ws3' @ ''('' @ rest'"
    and "list_all is_space ws'" "pfx' = [] \<or> pfx' = ''$[PREFIX]''"
      "name' \<noteq> []" "list_all module_char name'"
      "list_all newline_or_space ws2'" "hash' = [] \<or> hash' = ''#''" "list_all newline_or_space ws3'"
  shows "name = name'"
proof -
  define r where "r = ws2 @ hash @ ws3 @ ''('' @ rest"
  define r' where "r' = ws2' @ hash' @ ws3' @ ''('' @ rest'"
  have "ws @ pfx @ name @ r = ws' @ pfx' @ name' @ r'"
    using assms(1,9) by (simp add: r_def r'_def)
  then have "dropWhile is_space (ws @ pfx @ name @ r) = dropWhile is_space (ws' @ pfx' @ name' @ r')"
    by simp
  then have x: "pfx @ name @ r = pfx' @ name' @ r'"
    using assms(2-5) assms(10-13) by (simp add: header_front_drop)
  from assms(4,5) obtain n ns where n: "name = n # ns" "module_char n"
    by (cases name) auto
  from assms(12,13) obtain n' ns' where n': "name' = n' # ns'" "module_char n'"
    by (cases name') auto
  have "pfx = pfx'"
    using assms(3,11) x n n' not_module_char_marks(3) by auto
  with x have y: "name @ r = name' @ r'"
    by simp
  have "takeWhile module_char (name @ r) = name"
    using assms(5) header_tail_not_module_char [OF assms(6-8), of rest]
    by (simp add: r_def takeWhile_append2 list_all_iff)
  moreover have "takeWhile module_char (name' @ r') = name'"
    using assms(13) header_tail_not_module_char [OF assms(14-16), of rest']
    by (simp add: r'_def takeWhile_append2 list_all_iff)
  ultimately show ?thesis
    using y by simp
qed

lemma match_at_nonempty:
  "run rx (b, a, Map.empty) \<noteq> [] \<Longrightarrow> \<exists>st. match_at rx b a = Some st"
  by (cases "run rx (b, a, Map.empty)") (auto simp: match_at_def)

text \<open>The module pattern matches at a position exactly where a header begins.\<close>

lemma match_at_moduleNamePattern_header:
  "(\<exists>b' a' g'. match_at moduleNamePattern b a = Some (b', a', g') \<and> g' 1 = Some name)
     \<longleftrightarrow> header_at b a name"
proof
  assume "\<exists>b' a' g'. match_at moduleNamePattern b a = Some (b', a', g') \<and> g' 1 = Some name"
  then obtain b' a' g' where
    m: "match_at moduleNamePattern b a = Some (b', a', g')" and g: "g' 1 = Some name"
    by blast
  from m have "(b', a', g') \<in> set (run moduleNamePattern (b, a, Map.empty))"
    by (rule match_at_in_run)
  then have ex: "\<not> header_excluded b"
    and mem: "(b', a', g') \<in> set (run module_header (b, a, Map.empty))"
    unfolding run_moduleNamePattern_excluded by (simp_all split: if_splits)
  from mem obtain ws pfx name0 ws2 hash ws3 where
    a: "a = ''module'' @ ws @ pfx @ name0 @ ws2 @ hash @ ws3 @ ''('' @ a'" and
    c: "ws \<noteq> []" "list_all is_space ws" "pfx = [] \<or> pfx = ''$[PREFIX]''"
      "name0 \<noteq> []" "list_all module_char name0"
      "list_all newline_or_space ws2" "hash = [] \<or> hash = ''#''" "list_all newline_or_space ws3"
    and g0: "g' = [1 \<mapsto> name0]"
    unfolding in_run_module_header by blast
  from g g0 have "name0 = name"
    by simp
  with ex a c show "header_at b a name"
    unfolding header_at_def by blast
next
  assume h: "header_at b a name"
  then obtain ws pfx ws2 hash ws3 rest where
    a: "a = ''module'' @ ws @ pfx @ name @ ws2 @ hash @ ws3 @ ''('' @ rest" and
    c: "ws \<noteq> []" "list_all is_space ws" "pfx = [] \<or> pfx = ''$[PREFIX]''"
      "name \<noteq> []" "list_all module_char name"
      "list_all newline_or_space ws2" "hash = [] \<or> hash = ''#''" "list_all newline_or_space ws3"
    and ex: "\<not> header_excluded b"
    unfolding header_at_def by blast
  define b0 where "b0 = rev (''module'' @ ws @ pfx @ name @ ws2 @ hash @ ws3 @ ''('') @ b"
  have "(b0, rest, [1 \<mapsto> name]) \<in> set (run module_header (b, a, Map.empty))"
    unfolding in_run_module_header b0_def using a c by blast
  then have "run moduleNamePattern (b, a, Map.empty) \<noteq> []"
    unfolding run_moduleNamePattern_excluded using ex by auto
  then obtain st where m: "match_at moduleNamePattern b a = Some st"
    using match_at_nonempty by blast
  obtain b' a' g' where st: "st = (b', a', g')"
    by (metis prod_cases3)
  from m have "(b', a', g') \<in> set (run moduleNamePattern (b, a, Map.empty))"
    unfolding st by (rule match_at_in_run)
  then have "(b', a', g') \<in> set (run module_header (b, a, Map.empty))"
    unfolding run_moduleNamePattern_excluded by (simp split: if_splits)
  then obtain ws' pfx' name' ws2' hash' ws3' where
    a': "a = ''module'' @ ws' @ pfx' @ name' @ ws2' @ hash' @ ws3' @ ''('' @ a'" and
    c': "ws' \<noteq> []" "list_all is_space ws'" "pfx' = [] \<or> pfx' = ''$[PREFIX]''"
      "name' \<noteq> []" "list_all module_char name'"
      "list_all newline_or_space ws2'" "hash' = [] \<or> hash' = ''#''"
      "list_all newline_or_space ws3'"
    and g': "g' = [1 \<mapsto> name']"
    unfolding in_run_module_header by blast
  have "name = name'"
    using a c(2-8) a' c'(2-8) by (rule header_name_unique)
  with g' m st show "\<exists>b' a' g'. match_at moduleNamePattern b a = Some (b', a', g') \<and> g' 1 = Some name"
    by simp
qed

lemma in_site_match:
  "m \<in> set (site_match rx b a) \<longleftrightarrow>
     (\<exists>b' a' g. match_at rx b a = Some (b', a', g)
        \<and> m = \<lparr>m_start = length b, m_end = length b', m_groups = g\<rparr>)"
  by (cases "match_at rx b a") (auto simp: site_match_def)

lemma site_match_in_every_match:
  "m \<in> set (site_match rx b a) \<Longrightarrow> m \<in> set (every_match rx b a)"
  by (cases a) simp_all

lemma every_match_sound:
  "m \<in> set (every_match rx b a) \<Longrightarrow>
     \<exists>u v b' a' g. a = u @ v \<and> match_at rx (rev u @ b) v = Some (b', a', g)
        \<and> m = \<lparr>m_start = length b + length u, m_end = length b', m_groups = g\<rparr>"
proof (induction a arbitrary: b)
  case Nil
  then obtain b' a' g where "match_at rx b [] = Some (b', a', g)"
    "m = \<lparr>m_start = length b, m_end = length b', m_groups = g\<rparr>"
    by (auto simp: in_site_match)
  then show ?case
    by (intro exI [of _ "[]"] exI [of _ b'] exI [of _ a'] exI [of _ g]) simp
next
  case (Cons c cs)
  from Cons.prems consider "m \<in> set (site_match rx b (c # cs))"
    | "m \<in> set (every_match rx (c # b) cs)"
    by auto
  then show ?case
  proof cases
    case 1
    then obtain b' a' g where "match_at rx b (c # cs) = Some (b', a', g)"
      "m = \<lparr>m_start = length b, m_end = length b', m_groups = g\<rparr>"
      by (auto simp: in_site_match)
    then show ?thesis
      by (intro exI [of _ "[]"] exI [of _ "c # cs"] exI [of _ b'] exI [of _ a'] exI [of _ g]) simp
  next
    case 2
    from Cons.IH [OF this] obtain u v b' a' g where
      "cs = u @ v" "match_at rx (rev u @ c # b) v = Some (b', a', g)"
      "m = \<lparr>m_start = length (c # b) + length u, m_end = length b', m_groups = g\<rparr>"
      by (elim exE conjE)
    then show ?thesis
      by (intro exI [of _ "c # u"] exI [of _ v] exI [of _ b'] exI [of _ a'] exI [of _ g]) simp
  qed
qed

lemma every_match_complete:
  "match_at rx (rev u @ b) v = Some (b', a', g) \<Longrightarrow>
     \<lparr>m_start = length b + length u, m_end = length b', m_groups = g\<rparr>
       \<in> set (every_match rx b (u @ v))"
proof (induction u arbitrary: b)
  case Nil
  then have "\<lparr>m_start = length b, m_end = length b', m_groups = g\<rparr> \<in> set (site_match rx b v)"
    by (simp add: in_site_match)
  then show ?case
    by (simp add: site_match_in_every_match)
next
  case (Cons c u)
  from Cons.prems have "match_at rx (rev u @ c # b) v = Some (b', a', g)"
    by simp
  from Cons.IH [OF this] show ?case
    by simp
qed

lemma header_sites:
  "(\<exists>m\<in>set (every_match moduleNamePattern [] (pre @ suf)).
       m_start m = length pre \<and> m_groups m 1 = Some name)
     \<longleftrightarrow> header_at (rev pre) suf name"
proof
  assume "\<exists>m\<in>set (every_match moduleNamePattern [] (pre @ suf)).
       m_start m = length pre \<and> m_groups m 1 = Some name"
  then obtain m where m: "m \<in> set (every_match moduleNamePattern [] (pre @ suf))"
    and s: "m_start m = length pre" and n: "m_groups m 1 = Some name"
    by blast
  from every_match_sound [OF m] obtain u v b' a' g where uv: "pre @ suf = u @ v"
    and ma: "match_at moduleNamePattern (rev u @ []) v = Some (b', a', g)"
    and m': "m = \<lparr>m_start = length ([] :: string) + length u, m_end = length b', m_groups = g\<rparr>"
    by (elim exE conjE)
  from s m' have "length u = length pre"
    by simp
  with uv have "u = pre" "v = suf"
    by simp_all
  with ma n m' have "\<exists>b' a' g'. match_at moduleNamePattern (rev pre) suf = Some (b', a', g')
      \<and> g' 1 = Some name"
    by simp
  then show "header_at (rev pre) suf name"
    unfolding match_at_moduleNamePattern_header .
next
  assume "header_at (rev pre) suf name"
  then obtain b' a' g' where ma: "match_at moduleNamePattern (rev pre) suf = Some (b', a', g')"
    and n: "g' 1 = Some name"
    unfolding match_at_moduleNamePattern_header [symmetric] by blast
  define m where "m = \<lparr>m_start = length ([] :: string) + length pre, m_end = length b', m_groups = g'\<rparr>"
  have "m \<in> set (every_match moduleNamePattern [] (pre @ suf))"
    unfolding m_def by (rule every_match_complete) (simp add: ma)
  moreover have "m_start m = length pre \<and> m_groups m 1 = Some name"
    using n by (simp add: m_def)
  ultimately show "\<exists>m\<in>set (every_match moduleNamePattern [] (pre @ suf)).
       m_start m = length pre \<and> m_groups m 1 = Some name"
    by blast
qed

lemma every_match_start_bounds:
  assumes "m \<in> set (every_match rx b a)"
  shows "length b \<le> m_start m \<and> m_start m \<le> length b + length a"
proof -
  from every_match_sound [OF assms] obtain u v b' a' g where
    "a = u @ v" "match_at rx (rev u @ b) v = Some (b', a', g)"
    "m = \<lparr>m_start = length b + length u, m_end = length b', m_groups = g\<rparr>"
    by (elim exE conjE)
  then show ?thesis
    by simp
qed

lemma site_match_start:
  "m \<in> set (site_match rx b a) \<Longrightarrow> m_start m = length b"
  by (auto simp: in_site_match)

lemma distinct_site_match: "distinct (map m_start (site_match rx b a))"
  by (cases "match_at rx b a") (auto simp: site_match_def)

lemma distinct_every_match_starts: "distinct (map m_start (every_match rx b a))"
proof (induction a arbitrary: b)
  case Nil
  show ?case
    by (simp add: distinct_site_match)
next
  case (Cons c cs)
  have "m_start m \<noteq> m_start m'"
    if "m \<in> set (site_match rx b (c # cs))" "m' \<in> set (every_match rx (c # b) cs)" for m m'
    using site_match_start [OF that(1)] every_match_start_bounds [OF that(2)] by simp
  then have "m_start ` set (site_match rx b (c # cs)) \<inter> m_start ` set (every_match rx (c # b) cs) = {}"
    by blast
  then show ?case
    using Cons.IH [of "c # b"] by (simp add: distinct_site_match)
qed

lemma every_match_module_group:
  assumes "m \<in> set (every_match moduleNamePattern b a)"
  shows "\<exists>name. m_groups m 1 = Some name"
proof -
  from every_match_sound [OF assms] obtain u v b' a' g where
    "a = u @ v"
    and ma: "match_at moduleNamePattern (rev u @ b) v = Some (b', a', g)"
    and m: "m = \<lparr>m_start = length b + length u, m_end = length b', m_groups = g\<rparr>"
    by (elim exE conjE)
  from ma have "(b', a', g) \<in> set (run moduleNamePattern (rev u @ b, v, Map.empty))"
    by (rule match_at_in_run)
  then have "(b', a', g) \<in> set (run module_header (rev u @ b, v, Map.empty))"
    unfolding run_moduleNamePattern_excluded by (simp split: if_splits)
  then obtain name where "g = [1 \<mapsto> name]"
    unfolding in_run_module_header by (elim exE conjE) auto
  with m show ?thesis
    by simp
qed

text \<open>The headers of a text are the matches of the module pattern, one for one.\<close>

lemma headers_every_match:
  "headers t = (\<lambda>m. (m_start m, group_or_empty m 1)) ` set (every_match moduleNamePattern [] t)"
  (is "_ = ?f ` ?M")
proof (rule set_eqI)
  fix p :: "nat \<times> string"
  obtain i name where p: "p = (i, name)"
    by (cases p)
  show "p \<in> headers t \<longleftrightarrow> p \<in> ?f ` ?M"
  proof
    assume "p \<in> headers t"
    then have i: "i \<le> length t" and h: "header_at (rev (take i t)) (drop i t) name"
      by (simp_all add: headers_def p)
    from h have "\<exists>m\<in>set (every_match moduleNamePattern [] (take i t @ drop i t)).
        m_start m = length (take i t) \<and> m_groups m 1 = Some name"
      unfolding header_sites .
    then obtain m where "m \<in> ?M" "m_start m = i" "m_groups m 1 = Some name"
      using i by auto
    then have "m \<in> ?M" "?f m = p"
      by (simp_all add: p group_or_empty_def)
    then show "p \<in> ?f ` ?M"
      by blast
  next
    assume "p \<in> ?f ` ?M"
    then obtain m where m: "m \<in> ?M" and s: "m_start m = i" and n: "group_or_empty m 1 = name"
      by (auto simp: p)
    from every_match_start_bounds [OF m] s have i: "i \<le> length t"
      by simp
    from every_match_module_group [OF m] n have g: "m_groups m 1 = Some name"
      by (auto simp: group_or_empty_def)
    have "\<exists>m\<in>set (every_match moduleNamePattern [] (take i t @ drop i t)).
        m_start m = length (take i t) \<and> m_groups m 1 = Some name"
      using m s g i by auto
    then have "header_at (rev (take i t)) (drop i t) name"
      unfolding header_sites .
    with i show "p \<in> headers t"
      by (simp add: headers_def p)
  qed
qed

lemma distinct_header_list:
  "distinct (map (\<lambda>m. (m_start m, group_or_empty m 1)) (every_match moduleNamePattern [] t))"
proof -
  have "distinct (map fst (map (\<lambda>m. (m_start m, group_or_empty m 1))
      (every_match moduleNamePattern [] t)))"
    using distinct_every_match_starts [of moduleNamePattern "[]" t] by (simp add: comp_def)
  then show ?thesis
    by (simp only: distinct_map)
qed

lemma headers_set_of_list:
  "headers t = set (map (\<lambda>m. (m_start m, group_or_empty m 1)) (every_match moduleNamePattern [] t))"
  by (simp add: headers_every_match)

lemma card_headers:
  "card (headers t) = length (every_match moduleNamePattern [] t)"
  unfolding headers_set_of_list using distinct_card [OF distinct_header_list [of t]]
  by (simp only: length_map)

lemma findall1_moduleNamePattern:
  "findall1 moduleNamePattern t = map snd (map (\<lambda>m. (m_start m, group_or_empty m 1))
     (every_match moduleNamePattern [] t))"
  by (simp add: findall1_def finditer_moduleNamePattern comp_def)

text \<open>
  Claim C3, as amended. A header is the keyword \<open>module\<close>, whitespace, the placeholder
  \<open>$[PREFIX]\<close> or nothing, a name, and then whitespace, at most one \<open>#\<close>, whitespace
  and an opening parenthesis, where the character just before the keyword is not a space,
  a slash, a letter or an underscore. A text has finitely many headers. When it has
  exactly one, the resolver returns its name and prints nothing; when it has none or more
  than one, the resolver returns \<open>module\<close> and prints the diagnostic.
\<close>

theorem module_name_resolution:
  "finite (headers t)
   \<and> (headers t = {(i, name)} \<longrightarrow> resolveModuleName t = (name, []))
   \<and> (card (headers t) \<noteq> 1 \<longrightarrow>
        resolveModuleName t = (''module'', [moduleNameNotIdentified ''module'']))"
proof (intro conjI impI)
  show "finite (headers t)"
    unfolding headers_set_of_list by (rule finite_set)
next
  assume h: "headers t = {(i, name)}"
  define hs where "hs = map (\<lambda>m. (m_start m, group_or_empty m 1)) (every_match moduleNamePattern [] t)"
  have "length hs = card (headers t)"
    by (simp add: hs_def card_headers)
  with h have "length hs = 1"
    by simp
  then obtain p where hs: "hs = [p]"
    by (cases hs) auto
  have "set hs = {(i, name)}"
    using h by (simp add: hs_def headers_set_of_list)
  with hs have "hs = [(i, name)]"
    by simp
  then have "findall1 moduleNamePattern t = [name]"
    unfolding findall1_moduleNamePattern hs_def [symmetric] by simp
  then show "resolveModuleName t = (name, [])"
    by (simp add: resolveModuleName_def)
next
  assume "card (headers t) \<noteq> 1"
  then have "length (findall1 moduleNamePattern t) \<noteq> 1"
    by (simp add: card_headers findall1_moduleNamePattern)
  then show "resolveModuleName t = (''module'', [moduleNameNotIdentified ''module''])"
    by (simp add: resolveModuleName_def)
qed

lemma headers_code:
  "headers t = set (map (\<lambda>m. (m_start m, group_or_empty m 1)) (module_headers_from [] t))"
  unfolding headers_set_of_list finditer_moduleNamePattern [symmetric]
  by (simp add: finditer_def module_headers_from_def)

theorem module_name_resolution_witness:
  "headers ''module foo ('' = {(0, ''foo'')}
   \<and> resolveModuleName ''module foo ('' = (''foo'', [])
   \<and> card (headers (''module a ('' @ nl @ ''module b ('')) \<noteq> 1
   \<and> resolveModuleName (''module a ('' @ nl @ ''module b ('')
        = (''module'', [moduleNameNotIdentified ''module''])"
proof -
  have a: "headers ''module foo ('' = {(0, ''foo'')}"
    unfolding headers_code by code_simp
  have b: "card (headers (''module a ('' @ nl @ ''module b ('')) \<noteq> 1"
    unfolding headers_code by code_simp
  from a b module_name_resolution [of "''module foo (''" 0 "''foo''"]
    module_name_resolution [of "''module a ('' @ nl @ ''module b (''"]
  show ?thesis
    by blast
qed

text \<open>
  The claim as stated fails on an indented header. In the text \<open> module foo (\<close> a header of
  the stated shape begins at position 1, the character before its keyword is a space, so
  neither a letter nor an underscore nor a slash, and it is the only match of the pattern
  with the stated look-behind; the resolver returns the fallback name with the diagnostic.
\<close>

theorem indented_header_counterexample:
  "claimed_header_at (rev '' '') ''module foo ('' ''foo''
   \<and> findall1 claimedModuleNamePattern '' module foo ('' = [''foo'']
   \<and> resolveModuleName '' module foo ('' = (''module'', [moduleNameNotIdentified ''module''])"
proof (intro conjI)
  have "''module foo ('' = ''module'' @ '' '' @ [] @ ''foo'' @ '' '' @ [] @ [] @ ''('' @ []"
    by simp
  moreover have "list_all is_space '' ''" "list_all module_char ''foo''"
    "list_all newline_or_space '' ''" "list_all newline_or_space []"
    by code_simp+
  moreover have "\<not> claimed_excluded (rev '' '')"
    by code_simp
  ultimately show "claimed_header_at (rev '' '') ''module foo ('' ''foo''"
    unfolding claimed_header_at_def by blast
next
  show "findall1 claimedModuleNamePattern '' module foo ('' = [''foo'']"
    by code_simp
next
  show "resolveModuleName '' module foo ('' = (''module'', [moduleNameNotIdentified ''module''])"
    unfolding resolveModuleName_def findall1_module by code_simp
qed

section \<open>The dimension of a declaration\<close>

lemma in_run_dimension_group:
  assumes "st' \<in> set (run dimension_group (b, a, g))"
  shows "\<exists>d a'. a = d @ a' \<and> bracketed d \<and> st' = (rev d @ b, a', g(1 \<mapsto> d))"
proof -
  from assms obtain s1 s2 s3 s4 where
    1: "s1 \<in> set (run (Lit ''['') (b, a, g))" and
    2: "s2 \<in> set (run (Many1 dim_char) s1)" and
    3: "s3 \<in> set (run (Lit '']'') s2)" and
    4: "s4 \<in> set (run (Opt (Many is_blank)) s3)" and
    5: "st' = capture 1 a s4"
    unfolding dimension_group_def
    by (auto simp only: in_run_Group in_run_Seq set_concat set_map)
  from 1 obtain a1 where a1: "a = ''['' @ a1" "s1 = (rev ''['' @ b, a1, g)"
    unfolding in_run_Lit by blast
  from 2 obtain body a2 where a2: "a1 = body @ a2" "body \<noteq> []" "list_all dim_char body"
    "s2 = (rev body @ rev ''['' @ b, a2, g)"
    unfolding a1 in_run_Many1_split by blast
  from 3 obtain a3 where a3: "a2 = '']'' @ a3" "s3 = (rev '']'' @ rev body @ rev ''['' @ b, a3, g)"
    unfolding a2 in_run_Lit by blast
  from 4 obtain sp a4 where a4: "a3 = sp @ a4" "list_all is_blank sp"
    "s4 = (rev sp @ rev '']'' @ rev body @ rev ''['' @ b, a4, g)"
    unfolding a3 in_run_Opt in_run_Many_split by fastforce
  define d where "d = ''['' @ body @ '']'' @ sp"
  have a: "a = d @ a4"
    by (simp add: d_def a1 a2 a3 a4)
  have "bracketed d"
    unfolding bracketed_def d_def using a2(2,3) a4(2) by blast
  moreover have "st' = (rev d @ b, a4, g(1 \<mapsto> d))"
    unfolding 5 a4 a by (simp add: capture_def d_def)
  ultimately show ?thesis
    using a by blast
qed

lemma in_run_Upto_2:
  "st' \<in> set (run (Upto 2 r) st) \<longleftrightarrow>
     st' = st \<or> (\<exists>s1\<in>set (run r st). st' = s1 \<or> st' \<in> set (run r s1))"
proof -
  obtain b a g where st: "st = (b, a, g)"
    by (cases st)
  have one: "set (run (Upto (Suc 0) r) s) = set (run r s) \<union> {s}" for s
    by (cases s) auto
  have "set (run (Upto (Suc (Suc 0)) r) (b, a, g))
      = (\<Union>s1\<in>set (run r (b, a, g)). set (run (Upto (Suc 0) r) s1)) \<union> {(b, a, g)}"
    by simp
  then show ?thesis
    unfolding st numeral_2_eq_2 one by blast
qed

text \<open>
  The repetition \<open>{0,2}\<close> of the dimension group consumes at most two bracketed
  dimensions; group 1 is left as it was when there is none, and otherwise holds the
  dimension consumed last.
\<close>

lemma in_run_dimensions:
  assumes "st' \<in> set (run (Upto 2 dimension_group) (b, a, g))"
  shows "\<exists>dims a'. a = concat dims @ a' \<and> length dims \<le> 2 \<and> list_all bracketed dims
     \<and> st' = (rev (concat dims) @ b, a', if dims = [] then g else g(1 \<mapsto> last dims))"
proof -
  from assms consider "st' = (b, a, g)"
    | s1 where "s1 \<in> set (run dimension_group (b, a, g))" "st' = s1"
    | s1 where "s1 \<in> set (run dimension_group (b, a, g))" "st' \<in> set (run dimension_group s1)"
    unfolding in_run_Upto_2 by blast
  then show ?thesis
  proof cases
    case 1
    then have "a = concat [] @ a \<and> length ([] :: string list) \<le> 2 \<and> list_all bracketed []
       \<and> st' = (rev (concat []) @ b, a, if ([] :: string list) = [] then g else g(1 \<mapsto> last []))"
      by simp
    then show ?thesis
      by blast
  next
    case 2
    from in_run_dimension_group [OF 2(1)] obtain d a' where
      d: "a = d @ a'" "bracketed d" "s1 = (rev d @ b, a', g(1 \<mapsto> d))"
      by blast
    then have "a = concat [d] @ a' \<and> length [d] \<le> 2 \<and> list_all bracketed [d]
       \<and> st' = (rev (concat [d]) @ b, a', if [d] = [] then g else g(1 \<mapsto> last [d]))"
      using 2(2) by simp
    then show ?thesis
      by blast
  next
    case 3
    from in_run_dimension_group [OF 3(1)] obtain d a1 where
      d: "a = d @ a1" "bracketed d" "s1 = (rev d @ b, a1, g(1 \<mapsto> d))"
      by blast
    from 3(2) have "st' \<in> set (run dimension_group (rev d @ b, a1, g(1 \<mapsto> d)))"
      by (simp only: d(3))
    from in_run_dimension_group [OF this] obtain e a' where
      e: "a1 = e @ a'" "bracketed e" "st' = (rev e @ rev d @ b, a', g(1 \<mapsto> d, 1 \<mapsto> e))"
      by blast
    then have "a = concat [d, e] @ a' \<and> length [d, e] \<le> 2 \<and> list_all bracketed [d, e]
       \<and> st' = (rev (concat [d, e]) @ b, a', if [d, e] = [] then g else g(1 \<mapsto> last [d, e]))"
      using d by simp
    then show ?thesis
      by blast
  qed
qed

text \<open>What every way of matching a declaration has read, and what it has captured.\<close>

lemma in_run_declaration_body:
  assumes "(b', a', g') \<in> set (run (declaration_body kw) (b, a, g))"
  shows "\<exists>ws0 dims ws1 name rest.
      a = kw @ ws0 @ concat dims @ ws1 @ name @ rest
    \<and> list_all is_space ws0 \<and> length dims \<le> 2 \<and> list_all bracketed dims
    \<and> ws1 \<noteq> [] \<and> list_all is_space ws1 \<and> name \<noteq> [] \<and> list_all signal_char name
    \<and> g' = (if dims = [] then g else g(1 \<mapsto> last dims))(2 \<mapsto> name)"
proof -
  from assms obtain s1 s2 s3 s4 s5 s6 where
    1: "s1 \<in> set (run (Lit kw) (b, a, g))" and
    2: "s2 \<in> set (run (Many is_space) s1)" and
    3: "s3 \<in> set (run (Upto 2 dimension_group) s2)" and
    4: "s4 \<in> set (run (Many1 is_space) s3)" and
    5: "s5 \<in> set (run (Group 2 (Many1 signal_char)) s4)" and
    6: "s6 \<in> set (run (Many is_space) s5)" and
    7: "(b', a', g') \<in> set (run (Opt (Lit '';'')) s6)"
    unfolding declaration_body_def
    by (auto simp only: in_run_Seq set_concat set_map)
  from 1 obtain a1 where a1: "a = kw @ a1" "s1 = (rev kw @ b, a1, g)"
    unfolding in_run_Lit by blast
  from 2 obtain ws0 a2 where a2: "a1 = ws0 @ a2" "list_all is_space ws0"
    "s2 = (rev ws0 @ rev kw @ b, a2, g)"
    unfolding a1 in_run_Many_split by blast
  from 3 have "s3 \<in> set (run (Upto 2 dimension_group) (rev ws0 @ rev kw @ b, a2, g))"
    by (simp only: a2(3))
  from in_run_dimensions [OF this] obtain dims a3 where
    a3: "a2 = concat dims @ a3" "length dims \<le> 2" "list_all bracketed dims"
    "s3 = (rev (concat dims) @ rev ws0 @ rev kw @ b, a3,
           if dims = [] then g else g(1 \<mapsto> last dims))"
    by blast
  define g1 where "g1 = (if dims = [] then g else g(1 \<mapsto> last dims))"
  from 4 obtain ws1 a4 where a4: "a3 = ws1 @ a4" "ws1 \<noteq> []" "list_all is_space ws1"
    "s4 = (rev ws1 @ rev (concat dims) @ rev ws0 @ rev kw @ b, a4, g1)"
    unfolding a3 g1_def [symmetric] in_run_Many1_split by blast
  from 5 obtain name a5 where a5: "a4 = name @ a5" "name \<noteq> []" "list_all signal_char name"
    "s5 = (rev name @ rev ws1 @ rev (concat dims) @ rev ws0 @ rev kw @ b, a5, g1(2 \<mapsto> name))"
    unfolding a4 in_run_Group_Many1 by blast
  from 6 obtain ws2 a6 where
    a6: "s6 = (rev ws2 @ rev name @ rev ws1 @ rev (concat dims) @ rev ws0 @ rev kw @ b, a6,
           g1(2 \<mapsto> name))"
    unfolding a5 in_run_Many_split by blast
  from 7 have g': "g' = g1(2 \<mapsto> name)"
    unfolding a6 in_run_Opt_Lit by auto
  have "a = kw @ ws0 @ concat dims @ ws1 @ name @ a5"
    by (simp add: a1 a2 a3 a4 a5)
  then show ?thesis
    using a2(2) a3(2,3) a4(2,3) a5(2,3) g' unfolding g1_def by blast
qed

lemma finditer_match:
  assumes "m \<in> set (finditer rx t)"
  shows "\<exists>b' a'. match_at rx (rev (take (m_start m) t)) (drop (m_start m) t)
      = Some (b', a', m_groups m)"
proof -
  from assms have "m \<in> set (scan rx [] t)"
    by (simp add: finditer_def)
  from scan_sound [OF this] obtain u v b' a' where
    "t = u @ v" "m_start m = length ([] :: string) + length u"
    "match_at rx (rev u @ []) v = Some (b', a', m_groups m)" "m_end m = length b'"
    by (elim exE conjE)
  then have "match_at rx (rev (take (m_start m) t)) (drop (m_start m) t)
      = Some (b', a', m_groups m)"
    by simp
  then show ?thesis
    by blast
qed

text \<open>
  What every match of a declaration scan has read and captured. The text reads, from where
  the match starts: the keyword, whitespace, at most two bracketed dimensions (each with
  the space characters taken with it), whitespace, and the name. Group 2 is the name.
  Group 1 is empty when there is no bracketed dimension, and otherwise is the bracketed
  dimension read last: the group stands inside the repetition, so the first of two is
  overwritten.
\<close>

lemma declaration_groups:
  assumes "m \<in> set (finditer (declaration_pattern kw) t)"
  shows "\<exists>ws0 dims ws1 name rest.
      drop (m_start m) t = kw @ ws0 @ concat dims @ ws1 @ name @ rest
    \<and> list_all is_space ws0 \<and> length dims \<le> 2 \<and> list_all bracketed dims
    \<and> ws1 \<noteq> [] \<and> list_all is_space ws1 \<and> name \<noteq> [] \<and> list_all signal_char name
    \<and> group_or_empty m 2 = name
    \<and> group_or_empty m 1 = (if dims = [] then [] else last dims)"
proof -
  from finditer_match [OF assms] obtain b' a' where
    "match_at (declaration_pattern kw) (rev (take (m_start m) t)) (drop (m_start m) t)
      = Some (b', a', m_groups m)"
    by blast
  then have "(b', a', m_groups m) \<in> set (run (declaration_pattern kw)
      (rev (take (m_start m) t), drop (m_start m) t, Map.empty))"
    by (rule match_at_in_run)
  then have "(b', a', m_groups m) \<in> set (run (declaration_body kw)
      (rev (take (m_start m) t), drop (m_start m) t, Map.empty))"
    unfolding run_declaration_pattern by (simp split: if_splits)
  from in_run_declaration_body [OF this] obtain ws0 dims ws1 name rest where
    a: "drop (m_start m) t = kw @ ws0 @ concat dims @ ws1 @ name @ rest" and
    c: "list_all is_space ws0" "length dims \<le> 2" "list_all bracketed dims"
      "ws1 \<noteq> []" "list_all is_space ws1" "name \<noteq> []" "list_all signal_char name" and
    g: "m_groups m = (if dims = [] then Map.empty else [1 \<mapsto> last dims])(2 \<mapsto> name)"
    by blast
  have "group_or_empty m 2 = name"
    by (simp add: group_or_empty_def g)
  moreover have "group_or_empty m 1 = (if dims = [] then [] else last dims)"
    by (simp add: group_or_empty_def g)
  ultimately show ?thesis
    using a c by blast
qed

text \<open>
  Claim C4. The claim asks for a dimension field that is the bracketed dimensions of the
  declaration, up to two, put together as they stand in the text. The pattern misses
  that: its group 1 stands inside the repetition \<open>{0,2}\<close> and takes in the space
  characters after the closing bracket. For \<open>wire [7:0][3:0] mem;\<close> the field is
  \<open>[3:0]\<close> and not \<open>[7:0][3:0]\<close>, likewise for a register with a space between the two
  dimensions; for \<open>wire [3:0]  x;\<close> the field is \<open>[3:0]\<close> with a space after it.
\<close>

theorem dimension_keeps_last_bracket_only:
  "findall2 internalWiresPattern ''wire [7:0][3:0] mem;'' = [(''[3:0]'', ''mem'')]
   \<and> claimed_dimension ''wire [7:0][3:0] mem;'' = ''[7:0][3:0]''
   \<and> findall2 internalRegsPattern ''reg [7:0] [3:0] mem;'' = [(''[3:0]'', ''mem'')]
   \<and> claimed_dimension ''reg [7:0] [3:0] mem;'' = ''[7:0][3:0]''
   \<and> findall2 internalWiresPattern ''wire [3:0]  x;'' = [(''[3:0] '', ''x'')]
   \<and> claimed_dimension ''wire [3:0]  x;'' = ''[3:0]''"
proof -
  have a: "findall2 internalWiresPattern ''wire [7:0][3:0] mem;'' = [(''[3:0]'', ''mem'')]"
    unfolding findall2_wires by code_simp
  have b: "claimed_dimension ''wire [7:0][3:0] mem;'' = ''[7:0][3:0]''"
    by code_simp
  have c: "findall2 internalRegsPattern ''reg [7:0] [3:0] mem;'' = [(''[3:0]'', ''mem'')]"
    unfolding findall2_regs by code_simp
  have d: "claimed_dimension ''reg [7:0] [3:0] mem;'' = ''[7:0][3:0]''"
    by code_simp
  have e: "findall2 internalWiresPattern ''wire [3:0]  x;'' = [(''[3:0] '', ''x'')]"
    unfolding findall2_wires by code_simp
  have f: "claimed_dimension ''wire [3:0]  x;'' = ''[3:0]''"
    by code_simp
  show ?thesis
    unfolding a b c d e f by simp
qed

end
